theory Spec2Isabelle
  imports Complex_Main "HOL-Library.Log_Nat"
begin

section \<open>The retry policy: \<open>_getDataFromApi\<close>\<close>

text \<open>
  The gateway (\<open>apiMiddleware.request\<close>) is a collaborator outside the sources. It is
  modelled as a function from the index of the request (the number of requests issued
  before it) to the outcome of that request: \<open>Inl err\<close> when the request throws
  \<open>err\<close>, \<open>Inr r\<close> when it resolves to \<open>r\<close>. The classifiers \<open>isRateLimitError\<close> and
  \<open>isNonceSmallError\<close> come from a helper module that is not among the sources, so
  they are parameters. The timed delays between attempts have no effect on any value
  and are left out.
\<close>

datatype 'e api_error = FindMethodError | GatewayError 'e | TypeError

text \<open>
  The loop of \<open>_getDataFromApi\<close>. \<open>n\<close> is the index of the next request; the result is
  the outcome together with the index after the last request issued.
\<close>

function getDataFromApi_loop ::
  "('e \<Rightarrow> bool) \<Rightarrow> ('e \<Rightarrow> bool) \<Rightarrow> (nat \<Rightarrow> 'e + 'r) \<Rightarrow> nat \<Rightarrow> nat \<Rightarrow> nat
     \<Rightarrow> ('e api_error + 'r) \<times> nat" where
  "getDataFromApi_loop isRateLimitError isNonceSmallError request
       n countRateLimitError countNonceSmallError =
     (case request n of
        Inr res \<Rightarrow> (Inr res, Suc n)
      | Inl err \<Rightarrow>
          if isRateLimitError err then
            (if countRateLimitError + 1 > 2 then (Inl (GatewayError err), Suc n)
             else getDataFromApi_loop isRateLimitError isNonceSmallError request
                    (Suc n) (countRateLimitError + 1) countNonceSmallError)
          else if isNonceSmallError err then
            (if countNonceSmallError + 1 > 20 then (Inl (GatewayError err), Suc n)
             else getDataFromApi_loop isRateLimitError isNonceSmallError request
                    (Suc n) countRateLimitError (countNonceSmallError + 1))
          else (Inl (GatewayError err), Suc n))"
  by pat_completeness auto
termination
  by (relation "measure (\<lambda>(isR, isN, request, n, cr, cn). (3 - cr) + (21 - cn))") auto

declare getDataFromApi_loop.simps [simp del]

definition getDataFromApi ::
  "bool \<Rightarrow> ('e \<Rightarrow> bool) \<Rightarrow> ('e \<Rightarrow> bool) \<Rightarrow> (nat \<Rightarrow> 'e + 'r) \<Rightarrow> nat
     \<Rightarrow> ('e api_error + 'r) \<times> nat" where
  "getDataFromApi hasMethod isRateLimitError isNonceSmallError request n =
     (if \<not> hasMethod then (Inl FindMethodError, n)
      else getDataFromApi_loop isRateLimitError isNonceSmallError request n 0 0)"

section \<open>The paginated fetcher: \<open>_insertApiDataArrObjTypeToDb\<close>\<close>

text \<open>
  A remote record carries the field named by \<open>schema.dateFieldName\<close> and the rest of its
  fields. The date field is \<open>Some d\<close> when it holds the integer \<open>d\<close> and \<open>None\<close> when
  it is absent; other JavaScript values of the field (fractions, strings) are outside
  the model.
\<close>

record 'a elem =
  dateField :: "int option"
  body :: 'a

text \<open>
  \<open>args.params\<close>. \<open>end\<close> becomes whatever the gateway returned as \<open>nextPage\<close>, so it is
  \<open>Some c\<close> for the integer \<open>c\<close> and \<open>None\<close> for anything that is not an integer.
\<close>

record params =
  p_start :: int
  p_end :: "int option"
  p_limit :: int
  p_symbol :: "string option"
  notThrowError :: bool
  notCheckNextPage :: bool

text \<open>
  The \<open>res\<close> of a response: an array of records, one record that is not in an array (a
  probe may be answered so), or nothing: \<open>null\<close>, \<open>undefined\<close> or an object without
  fields.
\<close>

datatype 'a api_res = NoRes | OneRecord "'a elem" | Records "'a elem list"

text \<open>The elements of \<open>res\<close> when it is an array.\<close>

definition arrayOf :: "'a api_res \<Rightarrow> 'a elem list" where
  "arrayOf r = (case r of Records rs \<Rightarrow> rs | _ \<Rightarrow> [])"

text \<open>\<open>Array.isArray(res)\<close>\<close>

definition isArray :: "'a api_res \<Rightarrow> bool" where
  "isArray r = (case r of Records _ \<Rightarrow> True | _ \<Rightarrow> False)"

text \<open>
  The response \<open>{ res, nextPage }\<close> of the gateway; \<open>nextPage\<close> is \<open>Some c\<close> for an
  integer and \<open>None\<close> otherwise.
\<close>

record 'a page =
  res :: "'a api_res"
  nextPage :: "int option"

text \<open>
  What the data inserter is connected to: \<open>apiMiddleware.hasMethod\<close> for the method at
  hand, the two classifiers, and \<open>apiMiddleware.request\<close>, which answers the request with
  index \<open>k\<close> for the parameters \<open>p\<close> and the flag \<open>isCheckCall\<close>.
\<close>

record ('e, 'a) gateway =
  hasMethod :: bool
  isRateLimitError :: "'e \<Rightarrow> bool"
  isNonceSmallError :: "'e \<Rightarrow> bool"
  request :: "nat \<Rightarrow> params \<Rightarrow> bool \<Rightarrow> 'e + 'a page"

text \<open>
  The effects of a pass: the index of the next request to the gateway, the parameters of
  every call of \<open>_getDataFromApi\<close> in order, and the slices handed to
  \<open>dao.insertElemsToDb\<close> in order (each before \<open>normalizeApiData\<close>, which maps the slice
  record by record). The storage layer is not among the sources; a write is taken to
  succeed.
\<close>

record 'a sync_state =
  reqIdx :: nat
  calls :: "params list"
  inserted :: "'a elem list list"

definition getPage ::
  "('e, 'a) gateway \<Rightarrow> params \<Rightarrow> bool \<Rightarrow> 'a sync_state
     \<Rightarrow> ('e api_error + 'a page) \<times> 'a sync_state" where
  "getPage gw p isCheckCall st =
     (case getDataFromApi (hasMethod gw) (isRateLimitError gw) (isNonceSmallError gw)
             (\<lambda>k. request gw k p isCheckCall) (reqIdx st) of
        (r, n') \<Rightarrow> (r, st\<lparr>reqIdx := n', calls := calls st @ [p]\<rparr>))"

text \<open>\<open>nextPage && Number.isInteger(nextPage)\<close>: zero is an integer and falsy.\<close>

definition isCursor :: "int option \<Rightarrow> bool" where
  "isCursor c = (case c of None \<Rightarrow> False | Some v \<Rightarrow> v \<noteq> 0)"

text \<open>\<open>res.filter((item) => start <= item[dateFieldName])\<close>; a comparison with an absent
  field is false.\<close>

definition clipToStart :: "int \<Rightarrow> 'a elem list \<Rightarrow> 'a elem list" where
  "clipToStart start rs =
     filter (\<lambda>item. case dateField item of None \<Rightarrow> False | Some d \<Rightarrow> start \<le> d) rs"

text \<open>What \<open>res.splice(k)\<close> leaves in \<open>res\<close>: a negative \<open>k\<close> counts from the end.\<close>

definition spliceFrom :: "int \<Rightarrow> 'b list \<Rightarrow> 'b list" where
  "spliceFrom k xs = (if k < 0 then take (nat (int (length xs) + k)) xs else take (nat k) xs)"

text \<open>
  One turn of the \<open>while (true)\<close> loop after the page has arrived, up to the decision to
  leave the loop or to go on.
\<close>

datatype 'a turn =
  Retry
  | Break "'a sync_state"
  | Next int "'a sync_state"

definition pageTurn ::
  "int \<Rightarrow> int \<Rightarrow> int \<Rightarrow> nat \<Rightarrow> 'a page \<Rightarrow> 'a sync_state \<Rightarrow> 'a turn" where
  "pageTurn start limit count serialRequestsCount pg st =
     (if res pg = Records [] \<and> isCursor (nextPage pg) \<and> serialRequestsCount < 1 then Retry
      else
        (case res pg of
           NoRes \<Rightarrow> Break st
         | OneRecord _ \<Rightarrow> Break st
         | Records [] \<Rightarrow> Break st
         | Records (r # rs) \<Rightarrow>
             (case dateField (last (r # rs)) of
                None \<Rightarrow> Break st
              | Some currTime \<Rightarrow>
                  if currTime = 0 then Break st
                  else
                    let clipped = (start \<ge> currTime);
                        res1 = (if clipped then clipToStart start (r # rs) else r # rs);
                        cut = (limit < count + int (length res1));
                        res2 = (if cut then spliceFrom (limit - count) res1 else res1);
                        isAllData = (clipped \<or> cut);
                        st' = st\<lparr>inserted := inserted st @ [res2]\<rparr>;
                        count' = count + int (length res2);
                        needElems = limit - count'
                    in if isAllData \<or> needElems \<le> 0 \<or> \<not> isCursor (nextPage pg)
                       then Break st'
                       else Next count' st')))"

text \<open>
  The loop. \<open>cur\<close> is \<open>currIterationArgs.params\<close>; \<open>start\<close> and \<open>limit\<close> are read from
  \<open>_args.params\<close>, which the loop never changes. The assignment of \<open>lastItem.date - 1\<close>
  to \<open>end\<close> at the bottom of the loop is kept as the source has it.
\<close>

function insertLoop ::
  "('e, 'a) gateway \<Rightarrow> int \<Rightarrow> int \<Rightarrow> params \<Rightarrow> int \<Rightarrow> nat \<Rightarrow> 'a sync_state
     \<Rightarrow> 'e api_error option \<times> 'a sync_state" where
  "insertLoop gw start limit cur count serialRequestsCount st =
     (case getPage gw cur False st of
        (Inl err, st1) \<Rightarrow> (Some err, st1)
      | (Inr pg, st1) \<Rightarrow>
          (let cur1 = cur\<lparr>p_end := nextPage pg\<rparr> in
           case pageTurn start limit count serialRequestsCount pg st1 of
             Retry \<Rightarrow> insertLoop gw start limit cur1 count (serialRequestsCount + 1) st1
           | Break st2 \<Rightarrow> (None, st2)
           | Next count' st2 \<Rightarrow>
               (let cur2 = (if p_end cur1 = None
                            then cur1\<lparr>p_end :=
                                   map_option (\<lambda>d. d - 1)
                                     (dateField (last (arrayOf (res pg))))\<rparr>
                            else cur1)
                in insertLoop gw start limit cur2 count' 0 st2)))"
  by pat_completeness auto
termination
  by (relation "measures [\<lambda>(gw, start, limit, cur, count, serial, st). nat (limit - count),
                          \<lambda>(gw, start, limit, cur, count, serial, st). 1 - serial]")
     (auto simp: pageTurn_def Let_def split: if_splits option.splits list.splits api_res.splits)

declare insertLoop.simps [simp del]

text \<open>
  \<open>checkCollType\<close> is a helper outside the sources; what it answers for the schema and
  the \<open>isPublic\<close> flag is the parameter \<open>isInsertable\<close>. \<open>_args\<close> is a deep copy of \<open>args\<close>
  with \<open>notThrowError\<close> set.
\<close>

definition insertApiDataArrObjTypeToDb ::
  "('e, 'a) gateway \<Rightarrow> bool \<Rightarrow> params \<Rightarrow> 'a sync_state
     \<Rightarrow> 'e api_error option \<times> 'a sync_state" where
  "insertApiDataArrObjTypeToDb gw isInsertable args st =
     (if \<not> isInsertable then (None, st)
      else
        (let args' = args\<lparr>notThrowError := True\<rparr>
         in insertLoop gw (p_start args') (p_limit args') args' 0 0 st))"


section \<open>A remote that serves a listing page by page\<close>

text \<open>
  The environment against which the cap and the boundary are stated: a gateway whose
  \<open>k\<close>-th request is answered by the \<open>k\<close>-th page of a fixed script, whatever the
  parameters, and by an empty page without cursor once the script is used up.
\<close>

definition emptyPage :: "'a page" where
  "emptyPage = \<lparr>res = Records [], nextPage = None\<rparr>"

definition servePages :: "'a page list \<Rightarrow> nat \<Rightarrow> params \<Rightarrow> bool \<Rightarrow> 'e + 'a page" where
  "servePages pages k p isCheckCall = Inr (if k < length pages then pages ! k else emptyPage)"

definition scriptedGateway :: "'a page list \<Rightarrow> (string, 'a) gateway" where
  "scriptedGateway pages =
     \<lparr>hasMethod = True, isRateLimitError = (\<lambda>e. False), isNonceSmallError = (\<lambda>e. False),
      request = servePages pages\<rparr>"

definition records :: "'a page \<Rightarrow> 'a elem list" where
  "records pg = arrayOf (res pg)"

definition dateOf :: "'a elem \<Rightarrow> int" where
  "dateOf r = (case dateField r of None \<Rightarrow> 0 | Some d \<Rightarrow> d)"

text \<open>Everything the remote holds, in the order in which it is served.\<close>

definition listing :: "'a page list \<Rightarrow> 'a elem list" where
  "listing pages = concat (map records pages)"

text \<open>
  No record dated at or after \<open>start\<close> is served after a page whose oldest record is
  dated at or before \<open>start\<close>.
\<close>

fun boundaryClosed :: "int \<Rightarrow> 'a page list \<Rightarrow> bool" where
  "boundaryClosed start [] = True"
| "boundaryClosed start (pg # pgs) =
     ((records pg \<noteq> [] \<and> dateOf (last (records pg)) \<le> start
         \<longrightarrow> list_all (\<lambda>r. dateOf r < start) (listing pgs))
      \<and> boundaryClosed start pgs)"

text \<open>A page with records, every one of them dated with a positive integer, and a
  cursor to the next page.\<close>

definition fullPage :: "'a page \<Rightarrow> bool" where
  "fullPage pg =
     (isArray (res pg) \<and> records pg \<noteq> [] \<and> isCursor (nextPage pg) \<and>
      list_all (\<lambda>r. dateField r \<noteq> None \<and> 0 < dateOf r) (records pg))"

text \<open>The listing is served newest first, in full pages, with a closed boundary.\<close>

definition wellServed :: "int \<Rightarrow> 'a page list \<Rightarrow> bool" where
  "wellServed start pages =
     (list_all fullPage pages \<and>
      sorted_wrt (\<lambda>a b. dateOf a \<ge> dateOf b) (listing pages) \<and>
      boundaryClosed start pages)"

subsection \<open>Concrete inputs\<close>

definition el :: "int \<Rightarrow> string \<Rightarrow> string elem" where
  "el d b = \<lparr>dateField = Some d, body = b\<rparr>"

definition mkParams :: "int \<Rightarrow> int \<Rightarrow> int \<Rightarrow> params" where
  "mkParams s e l = \<lparr>p_start = s, p_end = Some e, p_limit = l, p_symbol = None,
      notThrowError = False, notCheckNextPage = False\<rparr>"

definition freshState :: "'a sync_state" where
  "freshState = \<lparr>reqIdx = 0, calls = [], inserted = []\<rparr>"

text \<open>Four records at or after the date 3, two of them on a second page.\<close>

definition tiePages :: "string page list" where
  "tiePages = [\<lparr>res = Records [el 5 ''a'', el 3 ''b''], nextPage = Some 3\<rparr>,
               \<lparr>res = Records [el 3 ''c'', el 3 ''d''], nextPage = Some 3\<rparr>]"

text \<open>Six records with distinct dates on three pages.\<close>

definition sixPages :: "string page list" where
  "sixPages = [\<lparr>res = Records [el 9 ''a'', el 7 ''b''], nextPage = Some 6\<rparr>,
               \<lparr>res = Records [el 6 ''c'', el 4 ''d''], nextPage = Some 3\<rparr>,
               \<lparr>res = Records [el 3 ''e'', el 2 ''f''], nextPage = Some 1\<rparr>]"

text \<open>Two empty pages in a row, each with a cursor.\<close>

definition emptyPages :: "string page list" where
  "emptyPages = [\<lparr>res = Records [], nextPage = Some 50\<rparr>,
                 \<lparr>res = Records [], nextPage = Some 40\<rparr>]"

text \<open>A page whose oldest record is dated 0.\<close>

definition zeroPages :: "string page list" where
  "zeroPages = [\<lparr>res = Records [el 9 ''a'', el 0 ''b''], nextPage = Some 5\<rparr>]"

section \<open>The cursor and delta detector\<close>

text \<open>
  A collection schema as far as the inserter reads and writes it. \<open>sch_start\<close> is the
  field \<open>start\<close> of the schema: an integer
  for an ordinary collection and an array of \<open>[symbol, dates]\<close> pairs for a configurable
  public one; in \<open>dates\<close> a field is \<open>None\<close> when it is \<open>null\<close> or not set.
\<close>

record start_conf =
  baseStartFrom :: "int option"
  baseStartTo :: "int option"
  currStart :: "int option"

datatype start_cursor = StartAt int | StartPerSymbol "(string \<times> start_conf) list"

datatype coll_kind = InsertableArrObj | UpdatableArrObj | UpdatableArr

record schema =
  name :: string
  kind :: coll_kind
  isPublicColl :: bool
  confName :: string
  hasNewData :: bool
  sch_start :: start_cursor

text \<open>
  \<open>_getMethodArgMap(method, auth, limit, start = 0, end = Date.now())\<close>: an argument
  left out is \<open>None\<close>; \<open>maxLimit\<close> is the \<open>maxLimit\<close> of the method's schema and \<open>now\<close> the
  value of \<open>Date.now()\<close>.
\<close>

definition getMethodArgMap ::
  "int \<Rightarrow> int \<Rightarrow> int option \<Rightarrow> int option \<Rightarrow> int option \<Rightarrow> params" where
  "getMethodArgMap maxLimit now limit start' end' =
     \<lparr>p_start = (case start' of None \<Rightarrow> 0 | Some s \<Rightarrow> s),
      p_end = Some (case end' of None \<Rightarrow> now | Some e \<Rightarrow> e),
      p_limit = (case limit of None \<Rightarrow> maxLimit | Some l \<Rightarrow> l),
      p_symbol = None, notThrowError = False, notCheckNextPage = False\<rparr>"

text \<open>The truth value JavaScript gives to a number that may be missing.\<close>

definition truthyInt :: "int option \<Rightarrow> bool" where
  "truthyInt v = (case v of None \<Rightarrow> False | Some n \<Rightarrow> n \<noteq> 0)"

text \<open>
  \<open>isEmpty(res)\<close> of lodash: nothing and the empty array are empty, a record and an
  array with elements are not.
\<close>

definition isEmptyRes :: "'a api_res \<Rightarrow> bool" where
  "isEmptyRes r = (case r of NoRes \<Rightarrow> True | OneRecord _ \<Rightarrow> False | Records rs \<Rightarrow> rs = [])"

text \<open>The record that stands for \<open>res\<close>: itself, or the first element of the array.\<close>

definition newestOf :: "'a api_res \<Rightarrow> 'a elem option" where
  "newestOf r =
     (case r of
        NoRes \<Rightarrow> None
      | OneRecord x \<Rightarrow> Some x
      | Records rs \<Rightarrow> (case rs of [] \<Rightarrow> None | x # _ \<Rightarrow> Some x))"

text \<open>
  Modelled from the spec: \<open>compareElemsDbAndApi\<close>, a helper of the module
  \<open>./helpers\<close>, which is not among the sources. The spec has the detector "compare the
  probe's newest record's date field against the newest record currently in storage",
  "compute \<open>lastStoredDate\<close>; if the probe's newest date is strictly greater, mark
  \<open>hasNewData\<close> and set cursor start to \<open>lastStoredDate + 1\<close>", and the caller adds 1
  to what the helper returns: so the helper returns the date of the stored record when
  the date of the remote record is strictly greater, and \<open>false\<close> (here \<open>None\<close>)
  otherwise.
\<close>

definition compareElemsDbAndApi :: "'a elem \<Rightarrow> 'b api_res \<Rightarrow> int option" where
  "compareElemsDbAndApi elDb elApi =
     (case dateField elDb of
        None \<Rightarrow> None
      | Some dbDate \<Rightarrow>
          (case newestOf elApi of
             None \<Rightarrow> None
           | Some newest \<Rightarrow>
               (case dateField newest of
                  None \<Rightarrow> None
                | Some apiDate \<Rightarrow> if dbDate < apiDate then Some dbDate else None)))"


text \<open>
  \<open>schema.start.push(entry)\<close>: a \<open>start\<close> that is not an array has no \<open>push\<close>, and the
  call throws a \<open>TypeError\<close>.
\<close>

definition pushStart :: "schema \<Rightarrow> string \<times> start_conf \<Rightarrow> schema option" where
  "pushStart sch entry =
     (case sch_start sch of
        StartAt _ \<Rightarrow> None
      | StartPerSymbol entries \<Rightarrow> Some (sch\<lparr>sch_start := StartPerSymbol (entries @ [entry])\<rparr>))"

text \<open>
  The loop of \<open>_checkNewConfigurablePublicData\<close> over the configured \<open>(symbol, start)\<close>
  pairs. \<open>lastOf symbol\<close> and \<open>firstOf symbol\<close> are what \<open>dao.getElemInCollBy\<close> returns
  for the symbol with the schema's sort and with the inverted sort; \<open>symbolOf\<close> reads the
  field named by \<open>schema.symbolFieldName\<close> of a record, \<open>Some s\<close> when it is the string
  \<open>s\<close>.
\<close>

fun checkConfiguredSymbols ::
  "('e, 'a) gateway \<Rightarrow> int \<Rightarrow> int \<Rightarrow> (string \<Rightarrow> 'a elem option) \<Rightarrow> (string \<Rightarrow> 'a elem option)
     \<Rightarrow> ('a \<Rightarrow> string option) \<Rightarrow> (string \<times> int) list \<Rightarrow> schema \<Rightarrow> 'a sync_state
     \<Rightarrow> 'e api_error option \<times> schema \<times> 'a sync_state" where
  "checkConfiguredSymbols gw maxLimit now lastOf firstOf symbolOf [] sch st = (None, sch, st)"
| "checkConfiguredSymbols gw maxLimit now lastOf firstOf symbolOf ((symbol, confStart) # conf)
       sch st =
     (let args = (getMethodArgMap maxLimit now (Some 1) None None)
                   \<lparr>notThrowError := True, notCheckNextPage := True,
                    p_symbol := Some symbol\<rparr>;
          lastElemFromDb = lastOf symbol
      in case getPage gw args True st of
           (Inl err, st1) \<Rightarrow> (Some err, sch, st1)
         | (Inr pg, st1) \<Rightarrow>
             (let lastElemFromApi = res pg
              in if isEmptyRes lastElemFromApi \<or>
                    (case lastElemFromApi of
                       Records (first # _) \<Rightarrow>
                         (case symbolOf (body first) of
                            None \<Rightarrow> False
                          | Some s \<Rightarrow> s \<noteq> [] \<and> s \<noteq> symbol)
                     | _ \<Rightarrow> False)
                 then checkConfiguredSymbols gw maxLimit now lastOf firstOf symbolOf conf sch st1
                 else
                    (case lastElemFromDb of
                       None \<Rightarrow>
                         (case pushStart (sch\<lparr>hasNewData := True\<rparr>)
                                 (symbol, \<lparr>baseStartFrom = None, baseStartTo = None,
                                           currStart = Some confStart\<rparr>) of
                            None \<Rightarrow> (Some TypeError, sch\<lparr>hasNewData := True\<rparr>, st1)
                          | Some sch' \<Rightarrow>
                              checkConfiguredSymbols gw maxLimit now lastOf firstOf symbolOf
                                conf sch' st1)
                     | Some elDb \<Rightarrow>
                         (let lastDateInDb = compareElemsDbAndApi elDb lastElemFromApi;
                              sch2 = (if truthyInt lastDateInDb
                                      then sch\<lparr>hasNewData := True\<rparr> else sch);
                              curr = (if truthyInt lastDateInDb
                                      then map_option (\<lambda>d. d + 1) lastDateInDb else None);
                              isChangedBaseStart =
                                (case firstOf symbol of
                                   None \<Rightarrow> False
                                 | Some firstElemFromDb \<Rightarrow>
                                     truthyInt
                                       (compareElemsDbAndApi
                                          \<lparr>dateField = Some confStart, body = ()\<rparr>
                                          (OneRecord firstElemFromDb)));
                              sch3 = (if isChangedBaseStart
                                      then sch2\<lparr>hasNewData := True\<rparr> else sch2);
                              startConf =
                                \<lparr>baseStartFrom =
                                   (if isChangedBaseStart then Some confStart else None),
                                 baseStartTo =
                                   (if isChangedBaseStart
                                    then (case firstOf symbol of
                                            None \<Rightarrow> None
                                          | Some firstElemFromDb \<Rightarrow>
                                              map_option (\<lambda>d. d - 1)
                                                (dateField firstElemFromDb))
                                    else None),
                                 currStart = curr\<rparr>
                          in case pushStart sch3 (symbol, startConf) of
                               None \<Rightarrow> (Some TypeError, sch3, st1)
                             | Some sch' \<Rightarrow>
                                 checkConfiguredSymbols gw maxLimit now lastOf firstOf
                                   symbolOf conf sch' st1))))"

text \<open>
  The data inserter keeps its schemas in \<open>this._methodCollMap\<close>, a \<open>Map\<close> from method
  names to schema objects. Objects are shared by reference, so the map holds addresses
  into a store of schema objects.
\<close>

record inserter =
  methodCollMap :: "(string \<times> nat) list"
  schemas :: "schema list"

text \<open>
  \<open>_getMethodCollMap\<close>: \<open>new Map(this._methodCollMap)\<close> makes a new map with the same
  keys and the same values, and the values are the addresses.
\<close>

definition getMethodCollMap :: "inserter \<Rightarrow> (string \<times> nat) list" where
  "getMethodCollMap ins = methodCollMap ins"

text \<open>
  \<open>_checkNewConfigurablePublicData\<close> on the schema object at address \<open>ref\<close>.
  \<open>publicCollsConf\<close> is what \<open>dao.getElemsInCollBy\<close> returns for the schema's \<open>confName\<close>.
\<close>

definition checkNewConfigurablePublicData ::
  "('e, 'a) gateway \<Rightarrow> int \<Rightarrow> int \<Rightarrow> (string \<Rightarrow> (string \<times> int) list)
     \<Rightarrow> (string \<Rightarrow> 'a elem option) \<Rightarrow> (string \<Rightarrow> 'a elem option) \<Rightarrow> ('a \<Rightarrow> string option)
     \<Rightarrow> nat \<Rightarrow> inserter \<Rightarrow> 'a sync_state
     \<Rightarrow> 'e api_error option \<times> inserter \<times> 'a sync_state" where
  "checkNewConfigurablePublicData gw maxLimit now publicCollsConf lastOf firstOf symbolOf
       ref ins st =
     (let sch1 = (schemas ins ! ref)\<lparr>hasNewData := False\<rparr>
      in if publicCollsConf (confName sch1) = []
         then (None, ins\<lparr>schemas := (schemas ins)[ref := sch1]\<rparr>, st)
         else
           (case checkConfiguredSymbols gw maxLimit now lastOf firstOf symbolOf
                   (publicCollsConf (confName sch1)) sch1 st of
              (err, sch2, st2) \<Rightarrow> (err, ins\<lparr>schemas := (schemas ins)[ref := sch2]\<rparr>, st2)))"

subsection \<open>Concrete inputs for the detector\<close>






text \<open>
  A data inserter with the single public schema \<open>publicTrades\<close>, one configured symbol,
  empty storage, and a remote that answers every probe with one record of that symbol.
\<close>

definition publicTradesSchema :: schema where
  "publicTradesSchema = \<lparr>name = ''publicTrades'', kind = InsertableArrObj, isPublicColl = True,
      confName = ''publicTradesConf'', hasNewData = False, sch_start = StartPerSymbol []\<rparr>"

definition publicInserter :: inserter where
  "publicInserter = \<lparr>methodCollMap = [(''_getPublicTrades'', 0)],
                      schemas = [publicTradesSchema]\<rparr>"

definition btcConf :: "string \<Rightarrow> (string \<times> int) list" where
  "btcConf confName' = [(''tBTCUSD'', 1000)]"

definition nothingStored :: "string \<Rightarrow> string elem option" where
  "nothingStored symbol = None"

definition symbolOfBody :: "string \<Rightarrow> string option" where
  "symbolOfBody b = Some b"

definition btcPages :: "string page list" where
  "btcPages = [\<lparr>res = Records [el 5000 ''tBTCUSD''], nextPage = None\<rparr>,
               \<lparr>res = Records [el 5000 ''tBTCUSD''], nextPage = None\<rparr>]"

definition btcEntry :: "string \<times> start_conf" where
  "btcEntry = (''tBTCUSD'', \<lparr>baseStartFrom = None, baseStartTo = None, currStart = Some 1000\<rparr>)"

text \<open>
  What a run reads as \<open>schema.start\<close> through the map that \<open>_getMethodCollMap\<close> hands
  it at its beginning.
\<close>

definition startsSeenBy :: "inserter \<Rightarrow> start_cursor list" where
  "startsSeenBy ins =
     map (\<lambda>(method, ref). sch_start (schemas ins ! ref)) (getMethodCollMap ins)"

text \<open>Two runs of the detector, one after the other, on the same data inserter.\<close>

definition firstRun :: "string api_error option \<times> inserter \<times> string sync_state" where
  "firstRun = checkNewConfigurablePublicData (scriptedGateway btcPages) 1000 100 btcConf
                nothingStored nothingStored symbolOfBody 0 publicInserter freshState"

definition secondRun :: "string api_error option \<times> inserter \<times> string sync_state" where
  "secondRun = checkNewConfigurablePublicData (scriptedGateway btcPages) 1000 200 btcConf
                 nothingStored nothingStored symbolOfBody 0 (fst (snd firstRun))
                 (snd (snd firstRun))"

section \<open>Reconciliation of updatable collections\<close>








subsection \<open>Concrete inputs for the reconciliation\<close>







section \<open>The sync orchestrator\<close>

text \<open>
  A value passed to \<open>setProgress\<close>: a number, or the string \<open>MESS_ERR_UNAUTH\<close>
  (\<open>'ERR_AUTH_UNAUTHORIZED'\<close>).
\<close>

datatype progress = Percent int | ERR_AUTH_UNAUTHORIZED

text \<open>
  The orchestrator is modelled over what it calls. \<open>'w\<close> is everything outside it (the
  gateway, storage, the schemas), \<open>'m\<close> an entry \<open>[method, item]\<close> of a method map, \<open>'x\<close>
  an exception. Each operation takes the world and either throws or returns the new
  world:
  \<^item> \<open>checkNewData auth\<close> and \<open>checkNewPublicData\<close> return the entries of the filtered
    method map;
  \<^item> \<open>insertAccountData auth entry\<close> is \<open>_insertApiDataArrObjTypeToDb\<close> with the
    arguments built for the entry;
  \<^item> \<open>insertPublicData entry\<close> is the sequence \<open>_updateApiDataArrObjTypeToDb\<close>,
    \<open>_updateApiDataArrTypeToDb\<close>, \<open>_insertApiDataPublicArrObjTypeToDb\<close> for the entry;
  \<^item> \<open>collMapSize\<close> is \<open>this._methodCollMap.size\<close>.
\<close>

record auth =
  apiKey :: "string option"
  apiSecret :: "string option"

datatype auth_item = NotAnObject | AuthObject auth

datatype auth_store = AuthMissing | AuthNotAMap | AuthMap "auth_item list"

text \<open>The accounts of a credential set: its values that are objects.\<close>

fun accountsOf :: "auth_item list \<Rightarrow> auth list" where
  "accountsOf [] = []"
| "accountsOf (NotAnObject # items) = accountsOf items"
| "accountsOf (AuthObject au # items) = au # accountsOf items"

record ('w, 'm, 'x) operations =
  checkNewData :: "auth \<Rightarrow> 'w \<Rightarrow> 'x + 'm list \<times> 'w"
  insertAccountData :: "auth \<Rightarrow> 'm \<Rightarrow> 'w \<Rightarrow> 'x + 'w"
  checkNewPublicData :: "'w \<Rightarrow> 'x + 'm list \<times> 'w"
  insertPublicData :: "'m \<Rightarrow> 'w \<Rightarrow> 'x + 'w"
  collMapSize :: nat

text \<open>The values passed to \<open>setProgress\<close> so far, oldest first, and the world.\<close>

record 'w run_state =
  published :: "progress list"
  world :: 'w

text \<open>
  \<open>setProgress\<close>. The handler registered with \<open>setAsyncProgressHandler\<close>, if any, is
  called with the value; \<open>Some err\<close> is a handler that throws \<open>err\<close>. The listeners of
  the \<open>progress\<close> event are not modelled.
\<close>

definition setProgress ::
  "(progress \<Rightarrow> 'x option) option \<Rightarrow> progress \<Rightarrow> 'w run_state \<Rightarrow> 'x option \<times> 'w run_state" where
  "setProgress asyncProgressHandler p st =
     (let st' = st\<lparr>published := published st @ [p]\<rparr>
      in case asyncProgressHandler of
           None \<Rightarrow> (None, st')
         | Some handler \<Rightarrow> (handler p, st'))"

text \<open>
  Numbers. A JavaScript number is an IEEE 754 double. The numbers of the progress
  formulas are not negative and far from both ends of the exponent range, so a double
  is modelled as the real that it denotes and an arithmetic operation as the exact
  operation followed by \<open>toDouble\<close>, the rounding to the nearest real \<open>m * 2 ^ e\<close> with
  \<open>2 ^ 52 \<le> \<bar>m\<bar> \<le> 2 ^ 53\<close>, a tie going to the even \<open>m\<close>. Overflow, subnormal numbers and
  the sign of zero are not modelled. \<open>None\<close> is for \<open>undefined\<close>, \<open>NaN\<close> and the
  infinities.
\<close>

text \<open>Rounding a real to the nearest integer, a tie going to the even one.\<close>

definition roundHalfEven :: "real \<Rightarrow> int" where
  "roundHalfEven y =
     (let n = \<lfloor>y\<rfloor>; f = y - of_int n
      in if f < 1 / 2 then n else if 1 / 2 < f then n + 1 else if even n then n else n + 1)"

definition pow2 :: "int \<Rightarrow> real" where
  "pow2 k = (if 0 \<le> k then 2 ^ nat k else 1 / 2 ^ nat (- k))"

text \<open>The exponent \<open>e\<close> of a positive real \<open>x\<close>: \<open>2 ^ e \<le> x < 2 ^ (e + 1)\<close>.\<close>

definition binade :: "real \<Rightarrow> int" where
  "binade x =
     (if 1 \<le> x then bitlen \<lfloor>x\<rfloor> - 1
      else (let k = bitlen \<lfloor>1 / x\<rfloor> - 1
            in if x * 2 ^ nat k = 1 then - k else - (k + 1)))"

definition toDouble :: "real \<Rightarrow> real" where
  "toDouble x =
     (if x = 0 then 0
      else if x < 0
        then - (of_int (roundHalfEven (- x * pow2 (52 - binade (- x)))) * pow2 (binade (- x) - 52))
      else of_int (roundHalfEven (x * pow2 (52 - binade x))) * pow2 (binade x - 52))"

text \<open>\<open>a / b\<close>, \<open>a * b\<close>, \<open>a + b\<close> and \<open>a - b\<close> of two doubles.\<close>

definition jsDivide :: "real \<Rightarrow> real \<Rightarrow> real option" where
  "jsDivide a b = (if b = 0 then None else Some (toDouble (a / b)))"

definition jsTimes :: "real \<Rightarrow> real \<Rightarrow> real" where
  "jsTimes a b = toDouble (a * b)"

definition jsPlus :: "real \<Rightarrow> real \<Rightarrow> real" where
  "jsPlus a b = toDouble (a + b)"

definition jsMinus :: "real \<Rightarrow> real \<Rightarrow> real" where
  "jsMinus a b = toDouble (a - b)"

text \<open>\<open>Math.round\<close> rounds halves upwards.\<close>

definition mathRound :: "real \<Rightarrow> int" where
  "mathRound x = \<lfloor>x + 1 / 2\<rfloor>"

text \<open>\<open>progress < 100\<close>, false for a value that is not a number.\<close>

definition below100 :: "int option \<Rightarrow> bool" where
  "below100 p = (case p of None \<Rightarrow> False | Some v \<Rightarrow> v < 100)"

text \<open>\<open>Math.round((count / size) * 100 * userProgress)\<close>\<close>

definition accountProgress :: "nat \<Rightarrow> nat \<Rightarrow> real option \<Rightarrow> int option" where
  "accountProgress count size' userProgress =
     (case jsDivide (real count) (real size') of
        None \<Rightarrow> None
      | Some q \<Rightarrow> map_option (\<lambda>u. mathRound (jsTimes (jsTimes q 100) u)) userProgress)"

text \<open>
  \<open>Math.round(prevProgress + (count / size) * 100 * ((100 - prevProgress) / 100))\<close>. The
  previous progress is an integer that \<open>Math.round\<close> has returned, or 0.
\<close>

definition publicProgress :: "nat \<Rightarrow> nat \<Rightarrow> int option \<Rightarrow> int option" where
  "publicProgress count size' prevProgress =
     (case jsDivide (real count) (real size') of
        None \<Rightarrow> None
      | Some q \<Rightarrow>
          map_option
            (\<lambda>prev. mathRound
                       (jsPlus (real_of_int prev)
                          (jsTimes (jsTimes q 100)
                             (toDouble (jsMinus 100 (real_of_int prev) / 100)))))
            prevProgress)"

text \<open>The loop of \<open>insertNewDataToDb\<close> over the filtered method map.\<close>

fun accountLoop ::
  "('w, 'm, 'x) operations \<Rightarrow> (progress \<Rightarrow> 'x option) option \<Rightarrow> auth \<Rightarrow> real option
     \<Rightarrow> 'm list \<Rightarrow> nat \<Rightarrow> int option \<Rightarrow> 'w run_state
     \<Rightarrow> 'x \<times> 'w run_state + int option \<times> 'w run_state" where
  "accountLoop ops handler au userProgress [] count progress' st = Inr (progress', st)"
| "accountLoop ops handler au userProgress (entry # entries) count progress' st =
     (case insertAccountData ops au entry (world st) of
        Inl err \<Rightarrow> Inl (err, st)
      | Inr w' \<Rightarrow>
          (let st1 = st\<lparr>world := w'\<rparr>;
               count' = count + 1;
               progress'' = accountProgress count' (collMapSize ops) userProgress
           in if below100 progress''
              then (case progress'' of
                      None \<Rightarrow> accountLoop ops handler au userProgress entries count'
                                progress'' st1
                    | Some v \<Rightarrow>
                        (case setProgress handler (Percent v) st1 of
                           (Some err, st2) \<Rightarrow> Inl (err, st2)
                         | (None, st2) \<Rightarrow>
                             accountLoop ops handler au userProgress entries count'
                               progress'' st2))
              else accountLoop ops handler au userProgress entries count' progress'' st1))"

text \<open>
  \<open>insertNewDataToDb(auth, userProgress)\<close>. The result is \<open>None\<close> for \<open>undefined\<close>, which
  is what the function returns after it has published \<open>MESS_ERR_UNAUTH\<close>.
\<close>

definition insertNewDataToDb ::
  "('w, 'm, 'x) operations \<Rightarrow> (progress \<Rightarrow> 'x option) option \<Rightarrow> auth \<Rightarrow> real option
     \<Rightarrow> 'w run_state \<Rightarrow> 'x \<times> 'w run_state + int option \<times> 'w run_state" where
  "insertNewDataToDb ops handler au userProgress st =
     (if apiKey au = None \<or> apiSecret au = None
      then (case setProgress handler ERR_AUTH_UNAUTHORIZED st of
              (Some err, st1) \<Rightarrow> Inl (err, st1)
            | (None, st1) \<Rightarrow> Inr (None, st1))
      else
        (case checkNewData ops au (world st) of
           Inl err \<Rightarrow> Inl (err, st)
         | Inr (methodCollMap', w') \<Rightarrow>
             accountLoop ops handler au userProgress methodCollMap' 0 (Some 0)
               (st\<lparr>world := w'\<rparr>)))"

text \<open>The loop of \<open>insertNewPublicDataToDb\<close>.\<close>

fun publicLoop ::
  "('w, 'm, 'x) operations \<Rightarrow> (progress \<Rightarrow> 'x option) option \<Rightarrow> int option \<Rightarrow> nat
     \<Rightarrow> 'm list \<Rightarrow> nat \<Rightarrow> 'w run_state \<Rightarrow> 'x \<times> 'w run_state + 'w run_state" where
  "publicLoop ops handler prevProgress size' [] count st = Inr st"
| "publicLoop ops handler prevProgress size' (entry # entries) count st =
     (case insertPublicData ops entry (world st) of
        Inl err \<Rightarrow> Inl (err, st)
      | Inr w' \<Rightarrow>
          (let st1 = st\<lparr>world := w'\<rparr>;
               count' = count + 1;
               progress' = publicProgress count' size' prevProgress
           in if below100 progress'
              then (case progress' of
                      None \<Rightarrow> publicLoop ops handler prevProgress size' entries count' st1
                    | Some v \<Rightarrow>
                        (case setProgress handler (Percent v) st1 of
                           (Some err, st2) \<Rightarrow> Inl (err, st2)
                         | (None, st2) \<Rightarrow>
                             publicLoop ops handler prevProgress size' entries count' st2))
              else publicLoop ops handler prevProgress size' entries count' st1))"

definition insertNewPublicDataToDb ::
  "('w, 'm, 'x) operations \<Rightarrow> (progress \<Rightarrow> 'x option) option \<Rightarrow> int option
     \<Rightarrow> 'w run_state \<Rightarrow> 'x \<times> 'w run_state + 'w run_state" where
  "insertNewPublicDataToDb ops handler prevProgress st =
     (case checkNewPublicData ops (world st) of
        Inl err \<Rightarrow> Inl (err, st)
      | Inr (methodCollMap', w') \<Rightarrow>
          publicLoop ops handler prevProgress (length methodCollMap') methodCollMap' 0
            (st\<lparr>world := w'\<rparr>))"

text \<open>
  \<open>_afterAllInserts\<close>: every hook is called with the data inserter, and the promises are
  awaited together. A hook changes the world and resolves (\<open>None\<close>) or rejects (\<open>Some
  err\<close>); the call rejects with the rejection of the first hook in the list that
  rejects.
\<close>

fun afterAllInserts ::
  "('w \<Rightarrow> 'x option \<times> 'w) list \<Rightarrow> 'w \<Rightarrow> 'x option \<times> 'w" where
  "afterAllInserts [] w = (None, w)"
| "afterAllInserts (hook # hooks) w =
     (case hook w of
        (r, w1) \<Rightarrow>
          (case afterAllInserts hooks w1 of
             (r', w2) \<Rightarrow> ((case r of None \<Rightarrow> r' | Some err \<Rightarrow> Some err), w2)))"

text \<open>The loop of \<open>insertNewDataToDbMultiUser\<close> over the entries of \<open>this._auth\<close>.\<close>

fun usersLoop ::
  "('w, 'm, 'x) operations \<Rightarrow> (progress \<Rightarrow> 'x option) option \<Rightarrow> nat \<Rightarrow> auth_item list
     \<Rightarrow> nat \<Rightarrow> int option \<Rightarrow> 'w run_state
     \<Rightarrow> 'x \<times> 'w run_state + int option \<times> 'w run_state" where
  "usersLoop ops handler authSize [] count progress' st = Inr (progress', st)"
| "usersLoop ops handler authSize (NotAnObject # items) count progress' st =
     usersLoop ops handler authSize items count progress' st"
| "usersLoop ops handler authSize (AuthObject au # items) count progress' st =
     (let count' = count + 1;
          userProgress = jsDivide (real count') (real authSize)
      in case insertNewDataToDb ops handler au userProgress st of
           Inl failure \<Rightarrow> Inl failure
         | Inr (progress'', st1) \<Rightarrow> usersLoop ops handler authSize items count' progress'' st1)"

text \<open>
  \<open>insertNewDataToDbMultiUser\<close>. \<open>authStore\<close> is what \<open>getAuthFromDb\<close>, a helper outside
  the sources, has returned.
\<close>

definition insertNewDataToDbMultiUser ::
  "('w, 'm, 'x) operations \<Rightarrow> (progress \<Rightarrow> 'x option) option \<Rightarrow> ('w \<Rightarrow> 'x option \<times> 'w) list
     \<Rightarrow> auth_store \<Rightarrow> 'w run_state \<Rightarrow> 'x \<times> 'w run_state + 'w run_state" where
  "insertNewDataToDbMultiUser ops handler hooks authStore st =
     (case authStore of
        AuthMap (item # items) \<Rightarrow>
          (case usersLoop ops handler (length (item # items)) (item # items) 0 (Some 0) st of
             Inl failure \<Rightarrow> Inl failure
           | Inr (progress', st1) \<Rightarrow>
               (case insertNewPublicDataToDb ops handler progress' st1 of
                  Inl failure \<Rightarrow> Inl failure
                | Inr st2 \<Rightarrow>
                    (case afterAllInserts hooks (world st2) of
                       (Some err, w3) \<Rightarrow> Inl (err, st2\<lparr>world := w3\<rparr>)
                     | (None, w3) \<Rightarrow>
                         (case setProgress handler (Percent 100) (st2\<lparr>world := w3\<rparr>) of
                            (Some err, st4) \<Rightarrow> Inl (err, st4)
                          | (None, st4) \<Rightarrow> Inr st4))))
      | _ \<Rightarrow>
          (case setProgress handler ERR_AUTH_UNAUTHORIZED st of
             (Some err, st1) \<Rightarrow> Inl (err, st1)
           | (None, st1) \<Rightarrow> Inr st1))"

subsection \<open>Concrete inputs for the orchestrator\<close>

text \<open>
  Operations that never throw and leave the world, a counter of the operations carried
  out, as they find it but for the count; every account has the same four entries with
  new data, the method map has four entries, and there is no public entry.
\<close>

definition fourEntries :: "auth \<Rightarrow> nat \<Rightarrow> string + string list \<times> nat" where
  "fourEntries au w = Inr ([''ledgers'', ''trades'', ''orders'', ''movements''], w)"

definition countedInsert :: "auth \<Rightarrow> string \<Rightarrow> nat \<Rightarrow> string + nat" where
  "countedInsert au entry w = Inr (Suc w)"

definition noPublicEntries :: "nat \<Rightarrow> string + string list \<times> nat" where
  "noPublicEntries w = Inr ([], w)"

definition countedPublicInsert :: "string \<Rightarrow> nat \<Rightarrow> string + nat" where
  "countedPublicInsert entry w = Inr (Suc w)"

definition quietOperations :: "(nat, string, string) operations" where
  "quietOperations =
     \<lparr>checkNewData = fourEntries, insertAccountData = countedInsert,
      checkNewPublicData = noPublicEntries, insertPublicData = countedPublicInsert,
      collMapSize = 4\<rparr>"

definition keyedAuth :: auth where
  "keyedAuth = \<lparr>apiKey = Some ''key'', apiSecret = Some ''secret''\<rparr>"

definition idleState :: "nat run_state" where
  "idleState = \<lparr>published = [], world = 0\<rparr>"

text \<open>The same operations with two public entries.\<close>

definition twoPublicEntries :: "nat \<Rightarrow> string + string list \<times> nat" where
  "twoPublicEntries w = Inr ([''symbols'', ''publicTrades''], w)"

definition busyOperations :: "(nat, string, string) operations" where
  "busyOperations = quietOperations\<lparr>checkNewPublicData := twoPublicEntries\<rparr>"

section \<open>The JSON-RPC responder\<close>

text \<open>
  The data of an error response: \<open>null\<close>, a value, the \<open>[{ symbol }]\<close> that the
  responder itself attaches to an invalid-symbol error, or one of these spread into an
  object together with \<open>bfxApiErrorMessage\<close>.
\<close>

datatype 'd err_data = NoData | Data 'd | SymbolData string | WithBfxApiError "'d err_data"

text \<open>
  An object as far as the responder looks at it: whether it is an instance of \<open>Error\<close>
  and of \<open>BaseError\<close>, its \<open>statusCode\<close>, \<open>statusMessage\<close> and \<open>data\<close> (\<open>None\<close> when
  \<open>undefined\<close>), whether \<open>status\<close> is truthy, and what the two regular expressions find
  in \<open>response\<close>: whether it matches \<open>_htmlRegExp\<close> and whether it matches
  \<open>_htmlTitleRegExp\<close>.
\<close>

record 'd obj =
  instanceOfError :: bool
  instanceOfBaseError :: bool
  statusCode :: "int option"
  statusMessage :: "string option"
  errData :: "'d err_data option"
  hasStatus :: bool
  responseIsHtml :: bool
  responseHasTitle :: bool

text \<open>A JavaScript value: an object, or a value that is not an object.\<close>

datatype ('v, 'd) jsvalue = Primitive 'v | Object "'d obj"

text \<open>
  \<open>args\<close>: \<open>None\<close> when it is not an object; otherwise its \<open>id\<close> (\<open>None\<close> when \<open>undefined\<close>
  or \<open>null\<close>) and \<open>params.symbol\<close> as a string (\<open>None\<close> when missing).
\<close>

record 'i rpc_args =
  argsId :: "'i option"
  argsSymbol :: "string option"

text \<open>The classifiers of the module \<open>../helpers\<close>, which is not among the sources.\<close>

record 'd classifiers =
  isAuthError :: "'d obj \<Rightarrow> bool"
  isRateLimitErr :: "'d obj \<Rightarrow> bool"
  isNonceSmallErr :: "'d obj \<Rightarrow> bool"
  isUserIsNotMerchantError :: "'d obj \<Rightarrow> bool"
  isSymbolInvalidError :: "'d obj \<Rightarrow> bool"

text \<open>The \<open>TypeError\<close> that reading \<open>.groups\<close> of \<open>null\<close> throws.\<close>

definition typeError :: "'d obj" where
  "typeError = \<lparr>instanceOfError = True, instanceOfBaseError = False, statusCode = None,
      statusMessage = None, errData = None, hasStatus = False, responseIsHtml = False,
      responseHasTitle = False\<rparr>"

text \<open>
  \<open>_getBfxApiErrorMetadata\<close>, as far as it can fail: for an error with a status whose
  response is HTML, \<open>_findHtmlTitle\<close> reads \<open>.groups\<close> of the match of the title
  expression, and the match is \<open>null\<close> when the response has no title. \<open>True\<close> when the
  call throws.
\<close>

definition getBfxApiErrorMetadataThrows :: "('v, 'd) jsvalue \<Rightarrow> bool" where
  "getBfxApiErrorMetadataThrows err =
     (case err of
        Primitive _ \<Rightarrow> False
      | Object e \<Rightarrow> hasStatus e \<and> responseIsHtml e \<and> \<not> responseHasTitle e)"

text \<open>
  \<open>_getErrorWithMetadataForNonBaseError\<close> for an object. \<open>newBaseError\<close> is what \<open>new
  BaseError(...)\<close> makes; the class is not among the sources.
\<close>

definition getErrorWithMetadataForNonBaseError ::
  "'d classifiers \<Rightarrow> 'd obj \<Rightarrow> 'i rpc_args option \<Rightarrow> ('v, 'd) jsvalue \<Rightarrow> 'd obj" where
  "getErrorWithMetadataForNonBaseError cl newBaseError args err =
     (case err of
        Primitive _ \<Rightarrow> newBaseError
      | Object e \<Rightarrow>
          if instanceOfBaseError e then e
          else if isAuthError cl e
            then e\<lparr>statusCode := Some 401, statusMessage := Some ''Unauthorized''\<rparr>
          else if isRateLimitErr cl e
            then e\<lparr>statusCode := Some 409, statusMessage := Some ''Rate limit error''\<rparr>
          else if isNonceSmallErr cl e
            then e\<lparr>statusCode := Some 409,
                   statusMessage :=
                     Some ''Nonces error, key are updated, please get new keys to operate''\<rparr>
          else if isUserIsNotMerchantError cl e
            then e\<lparr>statusCode := Some 409,
                   statusMessage :=
                     Some ''Pay invoice list error, the user is not a merchant''\<rparr>
          else if isSymbolInvalidError cl e
            then (let symbol = (case args of
                                  None \<Rightarrow> ''selected currency''
                                | Some a \<Rightarrow> (case argsSymbol a of
                                              None \<Rightarrow> ''selected currency''
                                            | Some s \<Rightarrow> s))
                  in e\<lparr>statusCode := Some 500,
                       statusMessage :=
                         Some (''Invalid symbol error, '' @ [CHR 0x27] @ symbol @ [CHR 0x27]
                               @ '' is not supported''),
                       errData := Some (SymbolData symbol)\<rparr>)
          else e)"

text \<open>
  \<open>{ bfxApiErrorMessage, ...data }\<close>: spreading data that already has the key
  \<open>bfxApiErrorMessage\<close> gives the same shape again.
\<close>

definition extendData :: "'d err_data \<Rightarrow> 'd err_data" where
  "extendData data = (case data of WithBfxApiError _ \<Rightarrow> data | _ \<Rightarrow> WithBfxApiError data)"

text \<open>
  \<open>_getErrorMetadata\<close>: \<open>Inl typeError\<close> when it throws; else \<open>code\<close>, \<open>message\<close> and
  \<open>data\<close>, and the object \<open>error\<close>, which is the object given (or the new \<open>BaseError\<close>)
  after \<open>Object.assign\<close> has written \<open>statusCode\<close>, \<open>statusMessage\<close> and the extended
  \<open>data\<close> into it.
\<close>

definition getErrorMetadata ::
  "'d classifiers \<Rightarrow> 'd obj \<Rightarrow> 'i rpc_args option \<Rightarrow> ('v, 'd) jsvalue
     \<Rightarrow> 'd obj + (int \<times> string \<times> 'd err_data) \<times> 'd obj" where
  "getErrorMetadata cl newBaseError args err =
     (let errWithMetadata = getErrorWithMetadataForNonBaseError cl newBaseError args err;
          code = (case statusCode errWithMetadata of None \<Rightarrow> 500 | Some c \<Rightarrow> c);
          message = (case statusMessage errWithMetadata of
                       None \<Rightarrow> ''Internal Server Error'' | Some m \<Rightarrow> m);
          data = (case errData errWithMetadata of None \<Rightarrow> NoData | Some d \<Rightarrow> d)
      in if getBfxApiErrorMetadataThrows err then Inl typeError
         else
           (let hasBfxApiErrorMessage = (case err of Primitive _ \<Rightarrow> False
                                         | Object e \<Rightarrow> hasStatus e);
                extendedData = (if hasBfxApiErrorMessage then extendData data else data);
                error = errWithMetadata\<lparr>statusCode := Some code,
                                         statusMessage := Some message,
                                         errData := Some extendedData\<rparr>
            in Inr ((code, message, data), error)))"

text \<open>
  \<open>_logError\<close>, as far as it can fail and changes the error: \<open>Inl e\<close> when it throws
  \<open>e\<close>, else the value it was given, which is the changed object when it is an object.
  The logger and the event emitter are collaborators and are taken not to throw.
\<close>

definition logError ::
  "'d classifiers \<Rightarrow> 'd obj \<Rightarrow> 'i rpc_args option \<Rightarrow> ('v, 'd) jsvalue
     \<Rightarrow> 'd obj + ('v, 'd) jsvalue" where
  "logError cl newBaseError args err =
     (case getErrorMetadata cl newBaseError args err of
        Inl e \<Rightarrow> Inl e
      | Inr (_, error) \<Rightarrow>
          Inr (case err of Primitive v \<Rightarrow> Primitive v | Object _ \<Rightarrow> Object error))"

text \<open>The two shapes of a JSON-RPC response.\<close>

datatype ('v, 'd, 'i) envelope =
  ResultEnvelope string "('v, 'd) jsvalue" "'i option"
  | ErrorEnvelope string int string "'d err_data" "'i option"

definition JSON_RPC_VERSION :: string where
  "JSON_RPC_VERSION = ''2.0''"

text \<open>\<open>_makeJsonRpcResponse\<close>: \<open>Inl e\<close> when it throws \<open>e\<close>.\<close>

definition makeJsonRpcResponse ::
  "'d classifiers \<Rightarrow> 'd obj \<Rightarrow> 'i rpc_args option \<Rightarrow> ('v, 'd) jsvalue
     \<Rightarrow> 'd obj + ('v, 'd, 'i) envelope" where
  "makeJsonRpcResponse cl newBaseError args result =
     (let id = (case args of None \<Rightarrow> None | Some a \<Rightarrow> argsId a)
      in case result of
           Primitive v \<Rightarrow> Inr (ResultEnvelope JSON_RPC_VERSION result id)
         | Object e \<Rightarrow>
             if instanceOfError e
             then (case getErrorMetadata cl newBaseError args result of
                     Inl t \<Rightarrow> Inl t
                   | Inr ((code, message, data), _) \<Rightarrow>
                       Inr (ErrorEnvelope JSON_RPC_VERSION code message data id))
             else Inr (ResultEnvelope JSON_RPC_VERSION result id))"

text \<open>
  What the handler does when it is called: it returns a value that is not a promise,
  throws, or returns a promise that is fulfilled or rejected.
\<close>

datatype ('v, 'd) handler_outcome =
  Returns "('v, 'd) jsvalue"
  | Throws "('v, 'd) jsvalue"
  | Resolves "('v, 'd) jsvalue"
  | Rejects "('v, 'd) jsvalue"

text \<open>
  What a call of the responder with a callback does: the responses it passes to the
  callback (each with \<open>null\<close> as the error argument), in order, the exception it throws,
  if any, and the rejection it leaves unhandled, if any.
\<close>

record ('v, 'd, 'i) responded =
  cbCalls :: "('v, 'd, 'i) envelope list"
  thrown :: "('v, 'd) jsvalue option"
  unhandled :: "('v, 'd) jsvalue option"

text \<open>
  \<open>cb(null, _makeJsonRpcResponse(args, value))\<close>: the exception of building the response
  or of the callback, if any, and the calls so far. \<open>cb response = Some e\<close> is a callback
  that throws \<open>e\<close>.
\<close>

definition callBack ::
  "'d classifiers \<Rightarrow> 'd obj \<Rightarrow> (('v, 'd, 'i) envelope \<Rightarrow> ('v, 'd) jsvalue option)
     \<Rightarrow> 'i rpc_args option \<Rightarrow> ('v, 'd) jsvalue \<Rightarrow> ('v, 'd, 'i) envelope list
     \<Rightarrow> ('v, 'd) jsvalue option \<times> ('v, 'd, 'i) envelope list" where
  "callBack cl newBaseError cb args v calls' =
     (case makeJsonRpcResponse cl newBaseError args v of
        Inl t \<Rightarrow> (Some (Object t), calls')
      | Inr response \<Rightarrow> (cb response, calls' @ [response]))"

text \<open>
  The \<open>catch\<close> block, and the handler given to \<open>.catch\<close>: log the error, then answer
  with it.
\<close>

definition catchError ::
  "'d classifiers \<Rightarrow> 'd obj \<Rightarrow> (('v, 'd, 'i) envelope \<Rightarrow> ('v, 'd) jsvalue option)
     \<Rightarrow> 'i rpc_args option \<Rightarrow> ('v, 'd) jsvalue \<Rightarrow> ('v, 'd, 'i) envelope list
     \<Rightarrow> ('v, 'd) jsvalue option \<times> ('v, 'd, 'i) envelope list" where
  "catchError cl newBaseError cb args err calls' =
     (case logError cl newBaseError args err of
        Inl t \<Rightarrow> (Some (Object t), calls')
      | Inr err' \<Rightarrow> callBack cl newBaseError cb args err' calls')"

text \<open>The responder, called with a callback.\<close>

definition responder ::
  "'d classifiers \<Rightarrow> 'd obj \<Rightarrow> ('v, 'd) handler_outcome
     \<Rightarrow> 'i rpc_args option \<Rightarrow> (('v, 'd, 'i) envelope \<Rightarrow> ('v, 'd) jsvalue option)
     \<Rightarrow> ('v, 'd, 'i) responded" where
  "responder cl newBaseError handler args cb =
     (case handler of
        Returns resFn \<Rightarrow>
          (case callBack cl newBaseError cb args resFn [] of
             (None, calls1) \<Rightarrow> \<lparr>cbCalls = calls1, thrown = None, unhandled = None\<rparr>
           | (Some err, calls1) \<Rightarrow>
               (case catchError cl newBaseError cb args err calls1 of
                  (t, calls2) \<Rightarrow> \<lparr>cbCalls = calls2, thrown = t, unhandled = None\<rparr>))
      | Throws err \<Rightarrow>
          (case catchError cl newBaseError cb args err [] of
             (t, calls1) \<Rightarrow> \<lparr>cbCalls = calls1, thrown = t, unhandled = None\<rparr>)
      | Resolves res' \<Rightarrow>
          (case callBack cl newBaseError cb args res' [] of
             (None, calls1) \<Rightarrow> \<lparr>cbCalls = calls1, thrown = None, unhandled = None\<rparr>
           | (Some err, calls1) \<Rightarrow>
               (case catchError cl newBaseError cb args err calls1 of
                  (t, calls2) \<Rightarrow> \<lparr>cbCalls = calls2, thrown = None, unhandled = t\<rparr>))
      | Rejects err \<Rightarrow>
          (case catchError cl newBaseError cb args err [] of
             (t, calls1) \<Rightarrow> \<lparr>cbCalls = calls1, thrown = None, unhandled = t\<rparr>))"

subsection \<open>Concrete inputs for the responder\<close>

definition noClass :: "unit obj \<Rightarrow> bool" where
  "noClass e = False"

definition plainClassifiers :: "unit classifiers" where
  "plainClassifiers = \<lparr>isAuthError = noClass, isRateLimitErr = noClass,
      isNonceSmallErr = noClass, isUserIsNotMerchantError = noClass,
      isSymbolInvalidError = noClass\<rparr>"

definition baseError :: "unit obj" where
  "baseError = \<lparr>instanceOfError = True, instanceOfBaseError = True, statusCode = None,
      statusMessage = None, errData = None, hasStatus = False, responseIsHtml = False,
      responseHasTitle = False\<rparr>"

definition quietCallback :: "(string, unit, nat) envelope \<Rightarrow> (string, unit) jsvalue option" where
  "quietCallback response = None"

definition request7 :: "nat rpc_args option" where
  "request7 = Some \<lparr>argsId = Some 7, argsSymbol = None\<rparr>"

section \<open>Properties of the retry policy\<close>

lemma rate_limit_loop:
  assumes "\<forall>k \<le> d. \<exists>e. rq (n + k) = Inl e \<and> isR e"
    and "cr + d = 2"
  shows "getDataFromApi_loop isR isN rq n cr cn =
           (Inl (GatewayError (projl (rq (n + d)))), Suc (n + d))"
  using assms
proof (induction d arbitrary: n cr)
  case 0
  then obtain e where "rq n = Inl e" "isR e" by auto
  with 0 show ?case by (simp add: getDataFromApi_loop.simps [of _ _ _ n])
next
  case (Suc d)
  from Suc.prems(1) obtain e where e: "rq n = Inl e" "isR e" by force
  have "\<forall>k \<le> d. \<exists>e. rq (Suc n + k) = Inl e \<and> isR e"
  proof (intro allI impI)
    fix k assume "k \<le> d"
    then have "Suc k \<le> Suc d" by simp
    with Suc.prems(1) have "\<exists>e. rq (n + Suc k) = Inl e \<and> isR e" by blast
    then show "\<exists>e. rq (Suc n + k) = Inl e \<and> isR e" by simp
  qed
  moreover have "Suc cr + d = 2" using Suc.prems(2) by simp
  ultimately have "getDataFromApi_loop isR isN rq (Suc n) (Suc cr) cn =
           (Inl (GatewayError (projl (rq (Suc n + d)))), Suc (Suc n + d))"
    by (rule Suc.IH)
  with e Suc.prems(2) show ?case
    by (simp add: getDataFromApi_loop.simps [of _ _ _ n])
qed

lemma nonce_loop:
  assumes "\<forall>k \<le> d. \<exists>e. rq (n + k) = Inl e \<and> \<not> isR e \<and> isN e"
    and "cn + d = 20"
  shows "getDataFromApi_loop isR isN rq n cr cn =
           (Inl (GatewayError (projl (rq (n + d)))), Suc (n + d))"
  using assms
proof (induction d arbitrary: n cn)
  case 0
  then obtain e where "rq n = Inl e" "\<not> isR e" "isN e" by auto
  with 0 show ?case by (simp add: getDataFromApi_loop.simps [of _ _ _ n])
next
  case (Suc d)
  from Suc.prems(1) obtain e where e: "rq n = Inl e" "\<not> isR e" "isN e" by force
  have "\<forall>k \<le> d. \<exists>e. rq (Suc n + k) = Inl e \<and> \<not> isR e \<and> isN e"
  proof (intro allI impI)
    fix k assume "k \<le> d"
    then have "Suc k \<le> Suc d" by simp
    with Suc.prems(1) have "\<exists>e. rq (n + Suc k) = Inl e \<and> \<not> isR e \<and> isN e" by blast
    then show "\<exists>e. rq (Suc n + k) = Inl e \<and> \<not> isR e \<and> isN e" by simp
  qed
  moreover have "Suc cn + d = 20" using Suc.prems(2) by simp
  ultimately have "getDataFromApi_loop isR isN rq (Suc n) cr (Suc cn) =
           (Inl (GatewayError (projl (rq (Suc n + d)))), Suc (Suc n + d))"
    by (rule Suc.IH)
  with e Suc.prems(2) show ?case
    by (simp add: getDataFromApi_loop.simps [of _ _ _ n])
qed

lemma other_error_loop:
  "rq n = Inl e \<Longrightarrow> \<not> isR e \<Longrightarrow> \<not> isN e \<Longrightarrow>
   getDataFromApi_loop isR isN rq n cr cn = (Inl (GatewayError e), Suc n)"
  by (simp add: getDataFromApi_loop.simps [of _ _ _ n])

lemma success_loop:
  "rq n = Inr r \<Longrightarrow> getDataFromApi_loop isR isN rq n cr cn = (Inr r, Suc n)"
  by (simp add: getDataFromApi_loop.simps [of _ _ _ n])

text \<open>
  Claim C2. A call of \<open>_getDataFromApi\<close> for a method the gateway has, starting at
  request index \<open>n\<close>: when every request fails with a rate-limit error, the call issues
  the three requests \<open>n\<close>, \<open>n + 1\<close>, \<open>n + 2\<close> and rethrows the error of the third; when
  every request fails with a nonce-too-small error (that is not also classified as a
  rate-limit error, which is tested first), it issues the 21 requests \<open>n\<close> to \<open>n + 20\<close>
  and rethrows the error of the last; when the first request fails with an error of
  neither class, that error is rethrown after this single request.
\<close>

theorem C2_retry_bound:
  "((\<forall>k. \<exists>e. rq k = Inl e \<and> isR e) \<longrightarrow>
      getDataFromApi True isR isN rq n =
        (Inl (GatewayError (projl (rq (n + 2)))), n + 3)) \<and>
   ((\<forall>k. \<exists>e. rq k = Inl e \<and> \<not> isR e \<and> isN e) \<longrightarrow>
      getDataFromApi True isR isN rq n =
        (Inl (GatewayError (projl (rq (n + 20)))), n + 21)) \<and>
   (rq n = Inl e \<and> \<not> isR e \<and> \<not> isN e \<longrightarrow>
      getDataFromApi True isR isN rq n = (Inl (GatewayError e), n + 1))"
proof (intro conjI impI)
  assume "\<forall>k. \<exists>e. rq k = Inl e \<and> isR e"
  then show "getDataFromApi True isR isN rq n =
       (Inl (GatewayError (projl (rq (n + 2)))), n + 3)"
    using rate_limit_loop [of 2 rq n isR 0 isN 0] by (simp add: getDataFromApi_def)
next
  assume "\<forall>k. \<exists>e. rq k = Inl e \<and> \<not> isR e \<and> isN e"
  then show "getDataFromApi True isR isN rq n =
       (Inl (GatewayError (projl (rq (n + 20)))), n + 21)"
    using nonce_loop [of 20 rq n isR isN 0 0] by (simp add: getDataFromApi_def)
next
  assume "rq n = Inl e \<and> \<not> isR e \<and> \<not> isN e"
  then show "getDataFromApi True isR isN rq n = (Inl (GatewayError e), n + 1)"
    using other_error_loop [of rq n e isR isN 0 0] by (simp add: getDataFromApi_def)
qed

theorem C2_retry_bound_witness:
  "getDataFromApi True (\<lambda>e. e = ''ERR_RATE_LIMIT'') (\<lambda>e. e = ''nonce: small'')
       (\<lambda>k. Inl ''ERR_RATE_LIMIT'' :: string + unit) 0
     = (Inl (GatewayError ''ERR_RATE_LIMIT''), 3) \<and>
   getDataFromApi True (\<lambda>e. e = ''ERR_RATE_LIMIT'') (\<lambda>e. e = ''nonce: small'')
       (\<lambda>k. Inl ''nonce: small'' :: string + unit) 0
     = (Inl (GatewayError ''nonce: small''), 21) \<and>
   getDataFromApi True (\<lambda>e. e = ''ERR_RATE_LIMIT'') (\<lambda>e. e = ''nonce: small'')
       (\<lambda>k. Inl ''ERR_AUTH'' :: string + unit) 0
     = (Inl (GatewayError ''ERR_AUTH''), 1)"
  using C2_retry_bound [of "\<lambda>k. Inl ''ERR_RATE_LIMIT'' :: string + unit"
          "\<lambda>e. e = ''ERR_RATE_LIMIT''" "\<lambda>e. e = ''nonce: small''" 0 "''ERR_AUTH''"]
        C2_retry_bound [of "\<lambda>k. Inl ''nonce: small'' :: string + unit"
          "\<lambda>e. e = ''ERR_RATE_LIMIT''" "\<lambda>e. e = ''nonce: small''" 0 "''ERR_AUTH''"]
        C2_retry_bound [of "\<lambda>k. Inl ''ERR_AUTH'' :: string + unit"
          "\<lambda>e. e = ''ERR_RATE_LIMIT''" "\<lambda>e. e = ''nonce: small''" 0 "''ERR_AUTH''"]
  by simp

section \<open>Properties of the paginated fetcher\<close>

lemma pageTurn_Next_less:
  "pageTurn start limit count serial pg st = Next count' st' \<Longrightarrow>
     count < count' \<and> count' < limit"
  by (auto simp: pageTurn_def Let_def split: if_splits option.splits list.splits api_res.splits)

lemma pageTurn_Retry_serial:
  "pageTurn start limit count serial pg st = Retry \<Longrightarrow> serial < 1"
  by (auto simp: pageTurn_def Let_def split: if_splits option.splits list.splits api_res.splits)

lemma getPage_inserted: "getPage gw p c st = (r, st1) \<Longrightarrow> inserted st1 = inserted st"
  by (auto simp: getPage_def split: prod.splits)

lemma spliceFrom_length:
  "0 \<le> k \<Longrightarrow> int (length (spliceFrom k xs)) \<le> k"
  by (auto simp: spliceFrom_def)

lemma pageTurn_Break_total:
  assumes "pageTurn start limit count serial pg st = Break st2" "0 \<le> count" "count \<le> limit"
  shows "int (length (concat (inserted st2))) \<le> int (length (concat (inserted st))) + (limit - count)"
  using assms spliceFrom_length [of "limit - count"]
  by (auto simp: pageTurn_def Let_def split: if_splits option.splits list.splits api_res.splits)

lemma pageTurn_Next_total:
  assumes "pageTurn start limit count serial pg st = Next count' st2"
  shows "int (length (concat (inserted st2))) = int (length (concat (inserted st))) + (count' - count)"
  using assms
  by (auto simp: pageTurn_def Let_def split: if_splits option.splits list.splits api_res.splits)

lemma insertLoop_total:
  "insertLoop gw start limit cur count serial st = (r, st') \<Longrightarrow> 0 \<le> count \<Longrightarrow> count \<le> limit \<Longrightarrow>
   int (length (concat (inserted st'))) \<le> int (length (concat (inserted st))) + (limit - count)"
proof (induction gw start limit cur count serial st arbitrary: r st' rule: insertLoop.induct)
  case (1 gw start limit cur count serial st)
  obtain g st1 where g: "getPage gw cur False st = (g, st1)" by (cases "getPage gw cur False st")
  have ins1: "inserted st1 = inserted st" using g by (rule getPage_inserted)
  show ?case
  proof (cases g)
    case (Inl err)
    with g "1.prems" ins1 show ?thesis by (simp add: insertLoop.simps [of gw start limit cur])
  next
    case (Inr pg)
    show ?thesis
    proof (cases "pageTurn start limit count serial pg st1")
      case Retry
      with g Inr "1.prems"(1) have "insertLoop gw start limit (cur\<lparr>p_end := nextPage pg\<rparr>) count (serial + 1) st1 = (r, st')"
        by (simp add: insertLoop.simps [of gw start limit cur])
      from "1.IH"(1) [OF g [symmetric] Inr refl Retry this "1.prems"(2,3)] ins1
      show ?thesis by simp
    next
      case (Break st2)
      with g Inr "1.prems"(1) have "st' = st2"
        by (simp add: insertLoop.simps [of gw start limit cur])
      with pageTurn_Break_total [OF Break "1.prems"(2,3)] ins1 show ?thesis by simp
    next
      case (Next count' st2)
      let ?cur1 = "cur\<lparr>p_end := nextPage pg\<rparr>"
      let ?cur2 = "if p_end ?cur1 = None
                            then ?cur1\<lparr>p_end :=
                                   map_option (\<lambda>d. d - 1)
                                     (dateField (last (arrayOf (res pg))))\<rparr>
                            else ?cur1"
      from Next g Inr "1.prems"(1) have run: "insertLoop gw start limit ?cur2 count' 0 st2 = (r, st')"
        by (simp add: insertLoop.simps [of gw start limit cur] Let_def)
      from pageTurn_Next_less [OF Next] "1.prems" have c: "0 \<le> count'" "count' \<le> limit" by auto
      from "1.IH"(2) [OF g [symmetric] Inr refl Next refl run c]
        pageTurn_Next_total [OF Next] ins1
      show ?thesis by simp
    qed
  qed
qed

lemma getPage_ok:
  assumes "hasMethod gw" "request gw (reqIdx st) p c = Inr pg"
  shows "getPage gw p c st = (Inr pg, st\<lparr>reqIdx := Suc (reqIdx st), calls := calls st @ [p]\<rparr>)"
  using assms by (simp add: getPage_def getDataFromApi_def success_loop)

lemma insertLoop_page:
  assumes "hasMethod gw" "request gw (reqIdx st) cur False = Inr pg"
  shows "insertLoop gw start limit cur count serial st =
     (case pageTurn start limit count serial pg
             (st\<lparr>reqIdx := Suc (reqIdx st), calls := calls st @ [cur]\<rparr>) of
        Retry \<Rightarrow> insertLoop gw start limit (cur\<lparr>p_end := nextPage pg\<rparr>) count (serial + 1)
                   (st\<lparr>reqIdx := Suc (reqIdx st), calls := calls st @ [cur]\<rparr>)
      | Break st2 \<Rightarrow> (None, st2)
      | Next count' st2 \<Rightarrow>
          insertLoop gw start limit
            (if nextPage pg = None
             then cur\<lparr>p_end := map_option (\<lambda>d. d - 1) (dateField (last (arrayOf (res pg))))\<rparr>
             else cur\<lparr>p_end := nextPage pg\<rparr>) count' 0 st2)"
  by (subst insertLoop.simps) (auto simp: getPage_ok [OF assms] Let_def split: turn.splits)

lemma clipToStart_append: "clipToStart s (xs @ ys) = clipToStart s xs @ clipToStart s ys"
  by (simp add: clipToStart_def)

lemma clipToStart_all:
  "\<forall>r \<in> set rs. dateField r \<noteq> None \<and> s \<le> dateOf r \<Longrightarrow> clipToStart s rs = rs"
  by (induction rs) (auto simp: clipToStart_def dateOf_def split: option.splits)

lemma spliceFrom_take: "0 \<le> k \<Longrightarrow> spliceFrom k xs = take (nat k) xs"
  by (simp add: spliceFrom_def)

lemma listing_Cons: "listing (pg # pgs) = records pg @ listing pgs"
  by (simp add: listing_def)

lemma sorted_last_least:
  assumes "sorted_wrt (\<lambda>a b. dateOf a \<ge> dateOf b) rs" "r \<in> set rs"
  shows "dateOf (last rs) \<le> dateOf r"
  using assms
proof (induction rs)
  case Nil then show ?case by simp
next
  case (Cons a rs)
  then show ?case by (cases "rs = []") auto
qed

text \<open>One page that is full, sorted, and followed by a closed boundary.\<close>

lemma pageTurn_full:
  assumes fp: "fullPage pg"
    and srt: "sorted_wrt (\<lambda>a b. dateOf a \<ge> dateOf b) (records pg)"
    and closed: "dateOf (last (records pg)) \<le> start \<longrightarrow> clipToStart start rest = []"
    and cnt: "0 \<le> count" "count \<le> limit"
  shows "(\<exists>st2. pageTurn start limit count 0 pg st = Break st2 \<and>
            concat (inserted st2) = concat (inserted st) @
               take (nat (limit - count)) (clipToStart start (records pg @ rest)) \<and>
            reqIdx st2 = reqIdx st) \<or>
         (\<exists>st2. pageTurn start limit count 0 pg st = Next (count + int (length (records pg))) st2 \<and>
            concat (inserted st2) = concat (inserted st) @ records pg \<and>
            clipToStart start (records pg) = records pg \<and>
            count + int (length (records pg)) < limit \<and> reqIdx st2 = reqIdx st)"
proof -
  from fp obtain rs0 where rs0: "res pg = Records rs0" "rs0 \<noteq> []"
    by (auto simp: fullPage_def records_def arrayOf_def split: api_res.splits)
  then obtain r rs where "rs0 = r # rs" by (cases rs0) auto
  with rs0 have rs: "res pg = Records (r # rs)" "records pg = r # rs"
    by (auto simp: records_def arrayOf_def)
  let ?rs = "r # rs"
  from fp rs have dates: "\<forall>x \<in> set ?rs. dateField x \<noteq> None \<and> 0 < dateOf x"
    by (auto simp: fullPage_def list_all_iff)
  then have "dateField (last ?rs) \<noteq> None \<and> 0 < dateOf (last ?rs)"
    using last_in_set [of ?rs] by blast
  then obtain t where t: "dateField (last ?rs) = Some t" "0 < t" "dateOf (last ?rs) = t"
    by (auto simp: dateOf_def split: option.splits)
  from fp have cur: "isCursor (nextPage pg)" by (simp add: fullPage_def)
  have least: "\<forall>x \<in> set ?rs. t \<le> dateOf x"
    using sorted_last_least [OF srt] rs t by auto
  let ?m = "nat (limit - count)"
  show ?thesis
  proof (cases "start \<ge> t")
    case True
    with closed rs t have rest: "clipToStart start rest = []" by simp
    let ?res1 = "clipToStart start ?rs"
    let ?res2 = "if limit < count + int (length ?res1) then spliceFrom (limit - count) ?res1 else ?res1"
    have "?res2 = take ?m ?res1" using cnt by (auto simp: spliceFrom_take)
    moreover have "pageTurn start limit count 0 pg st = Break (st\<lparr>inserted := inserted st @ [?res2]\<rparr>)"
      using True rs t cur by (simp add: pageTurn_def Let_def del: last.simps)
    ultimately have "pageTurn start limit count 0 pg st = Break (st\<lparr>inserted := inserted st @ [take ?m ?res1]\<rparr>)"
      by simp
    then show ?thesis using rest rs by (simp add: clipToStart_append del: last.simps append.simps)
  next
    case False
    with least dates have all: "clipToStart start ?rs = ?rs"
      by (intro clipToStart_all) force
    show ?thesis
    proof (cases "limit < count + int (length ?rs)")
      case True
      then have "pageTurn start limit count 0 pg st =
                   Break (st\<lparr>inserted := inserted st @ [take ?m ?rs]\<rparr>)"
        using False rs t cur cnt by (simp add: pageTurn_def Let_def spliceFrom_take del: last.simps)
      moreover have "take ?m (clipToStart start (?rs @ rest)) = take ?m ?rs"
        using True all cnt by (simp add: clipToStart_append del: append.simps)
      ultimately show ?thesis using rs by simp
    next
      case nocut: False
      show ?thesis
      proof (cases "limit - (count + int (length ?rs)) \<le> 0")
        case True
        with nocut have eq: "limit = count + int (length ?rs)" by simp
        have "pageTurn start limit count 0 pg st = Break (st\<lparr>inserted := inserted st @ [?rs]\<rparr>)"
          using False rs t cur cnt nocut True by (simp add: pageTurn_def Let_def del: last.simps)
        moreover have "take ?m (clipToStart start (?rs @ rest)) = ?rs"
          using eq all by (simp add: clipToStart_append del: append.simps)
        ultimately show ?thesis using rs by simp
      next
        case more: False
        have "pageTurn start limit count 0 pg st =
                Next (count + int (length ?rs)) (st\<lparr>inserted := inserted st @ [?rs]\<rparr>)"
          using False rs t cur cnt nocut more by (simp add: pageTurn_def Let_def del: last.simps)
        then show ?thesis using rs all more by simp
      qed
    qed
  qed
qed

lemma clipToStart_older:
  "\<forall>r \<in> set rs. dateOf r < s \<Longrightarrow> clipToStart s rs = []"
  by (induction rs) (auto simp: clipToStart_def dateOf_def split: option.splits)

lemma served_loop:
  assumes gw: "hasMethod gw" "request gw = servePages pages"
  shows "length pages - n = d \<Longrightarrow> reqIdx st = n \<Longrightarrow> 0 \<le> count \<Longrightarrow> count \<le> limit \<Longrightarrow>
     list_all fullPage (drop n pages) \<Longrightarrow>
     sorted_wrt (\<lambda>a b. dateOf a \<ge> dateOf b) (listing (drop n pages)) \<Longrightarrow>
     boundaryClosed start (drop n pages) \<Longrightarrow>
     \<exists>st'. insertLoop gw start limit cur count 0 st = (None, st') \<and>
        concat (inserted st') = concat (inserted st) @
           take (nat (limit - count)) (clipToStart start (listing (drop n pages)))"
proof (induction d arbitrary: n st count cur)
  case 0
  then have n: "length pages \<le> n" by simp
  let ?st1 = "st\<lparr>reqIdx := Suc (reqIdx st), calls := calls st @ [cur]\<rparr>"
  have rq: "request gw (reqIdx st) cur False = Inr emptyPage"
    using n 0 gw by (simp add: servePages_def)
  have "pageTurn start limit count 0 emptyPage ?st1 = Break ?st1"
    by (simp add: pageTurn_def emptyPage_def isCursor_def)
  then have "insertLoop gw start limit cur count 0 st = (None, ?st1)"
    by (simp add: insertLoop_page [OF gw(1) rq])
  then show ?case using n by (simp add: listing_def clipToStart_def)
next
  case (Suc d)
  then have n: "n < length pages" by simp
  let ?pg = "pages ! n"
  let ?rest = "drop (Suc n) pages"
  let ?st1 = "st\<lparr>reqIdx := Suc (reqIdx st), calls := calls st @ [cur]\<rparr>"
  let ?m = "nat (limit - count)"
  have dr: "drop n pages = ?pg # ?rest" using n by (simp add: Cons_nth_drop_Suc)
  have rq: "request gw (reqIdx st) cur False = Inr ?pg"
    using n Suc.prems(2) gw by (simp add: servePages_def)
  have fp: "fullPage ?pg" and fps: "list_all fullPage ?rest"
    using Suc.prems(5) dr by simp_all
  have srt: "sorted_wrt (\<lambda>a b. dateOf a \<ge> dateOf b) (records ?pg)"
    and srts: "sorted_wrt (\<lambda>a b. dateOf a \<ge> dateOf b) (listing ?rest)"
    using Suc.prems(6) dr by (simp_all add: listing_Cons sorted_wrt_append)
  have bcs: "boundaryClosed start ?rest" using Suc.prems(7) dr by simp
  have ne: "records ?pg \<noteq> []" using fp by (simp add: fullPage_def)
  have closed: "dateOf (last (records ?pg)) \<le> start \<longrightarrow> clipToStart start (listing ?rest) = []"
  proof
    assume "dateOf (last (records ?pg)) \<le> start"
    with Suc.prems(7) dr ne have "list_all (\<lambda>r. dateOf r < start) (listing ?rest)" by simp
    then show "clipToStart start (listing ?rest) = []"
      by (intro clipToStart_older) (simp add: list_all_iff)
  qed
  have lst: "listing (drop n pages) = records ?pg @ listing ?rest"
    using dr by (simp add: listing_Cons)
  from pageTurn_full [OF fp srt closed Suc.prems(3,4), of ?st1]
  show ?case
  proof (elim disjE exE conjE)
    fix st2
    assume "pageTurn start limit count 0 ?pg ?st1 = Break st2"
      and "concat (inserted st2) = concat (inserted ?st1) @
             take ?m (clipToStart start (records ?pg @ listing ?rest))"
    then show ?thesis by (simp add: insertLoop_page [OF gw(1) rq] lst)
  next
    fix st2
    let ?c = "count + int (length (records ?pg))"
    assume nx: "pageTurn start limit count 0 ?pg ?st1 = Next ?c st2"
      and ins: "concat (inserted st2) = concat (inserted ?st1) @ records ?pg"
      and all: "clipToStart start (records ?pg) = records ?pg"
      and lt: "?c < limit" and idx: "reqIdx st2 = reqIdx ?st1"
    let ?cur2 = "if nextPage ?pg = None
             then cur\<lparr>p_end := map_option (\<lambda>d. d - 1) (dateField (last (arrayOf (res ?pg))))\<rparr>
             else cur\<lparr>p_end := nextPage ?pg\<rparr>"
    have step: "insertLoop gw start limit cur count 0 st = insertLoop gw start limit ?cur2 ?c 0 st2"
      using nx by (simp add: insertLoop_page [OF gw(1) rq])
    have "length pages - Suc n = d" using Suc.prems(1) by simp
    moreover have "reqIdx st2 = Suc n" using idx Suc.prems(2) by simp
    moreover have "0 \<le> ?c" using Suc.prems(3) by simp
    moreover have "?c \<le> limit" using lt by simp
    ultimately obtain st' where st': "insertLoop gw start limit ?cur2 ?c 0 st2 = (None, st')"
      "concat (inserted st') = concat (inserted st2) @
           take (nat (limit - ?c)) (clipToStart start (listing ?rest))"
      using Suc.IH [OF _ _ _ _ fps srts bcs, of st2 ?c ?cur2] by blast
    have "take ?m (clipToStart start (records ?pg @ listing ?rest)) =
            records ?pg @ take (nat (limit - ?c)) (clipToStart start (listing ?rest))"
    proof -
      have "?m - length (records ?pg) = nat (limit - ?c)" using lt by simp
      moreover have "length (records ?pg) \<le> ?m" using lt by simp
      ultimately show ?thesis by (simp add: clipToStart_append all)
    qed
    with st' ins step show ?thesis by (simp add: lst)
  qed
qed

lemma getPage_calls:
  "getPage gw p c st = (r, st1) \<Longrightarrow> calls st1 = calls st @ [p]"
  by (auto simp: getPage_def split: prod.splits)

lemma pageTurn_calls:
  "pageTurn start limit count serial pg st = Break st2 \<Longrightarrow> calls st2 = calls st"
  "pageTurn start limit count serial pg st = Next c st3 \<Longrightarrow> calls st3 = calls st"
  by (auto simp: pageTurn_def Let_def split: if_splits option.splits list.splits api_res.splits)

lemma insertLoop_calls_grow:
  "\<exists>more. calls (snd (insertLoop gw start limit cur count serial st)) = calls st @ cur # more"
proof (induction gw start limit cur count serial st rule: insertLoop.induct)
  case (1 gw start limit cur count serial st)
  obtain g st1 where g: "getPage gw cur False st = (g, st1)" by (cases "getPage gw cur False st")
  have c1: "calls st1 = calls st @ [cur]" using g by (rule getPage_calls)
  show ?case
  proof (cases g)
    case (Inl err)
    with g c1 show ?thesis by (simp add: insertLoop.simps [of gw start limit cur])
  next
    case (Inr pg)
    show ?thesis
    proof (cases "pageTurn start limit count serial pg st1")
      case Retry
      from "1.IH"(1) [OF g [symmetric] Inr refl Retry] c1 g Inr Retry
      show ?thesis by (auto simp add: insertLoop.simps [of gw start limit cur])
    next
      case (Break st2)
      with g Inr c1 pageTurn_calls(1) [OF Break] show ?thesis
        by (simp add: insertLoop.simps [of gw start limit cur])
    next
      case (Next count' st2)
      from "1.IH"(2) [OF g [symmetric] Inr refl Next refl] c1 g Inr Next pageTurn_calls(2) [OF Next]
      show ?thesis by (auto simp add: insertLoop.simps [of gw start limit cur] Let_def)
    qed
  qed
qed


text \<open>
  Claim C1, as the code has it. For every gateway and every pass with a limit that is
  not negative, the records handed to \<open>dao.insertElemsToDb\<close> during the pass number at
  most the limit. When the remote serves its listing newest first in full pages, and no
  record dated exactly \<open>start\<close> is served after a page whose oldest record is dated at or
  before \<open>start\<close>, the pass ends without error and has persisted exactly the first
  \<open>limit\<close> records of the listing that are dated at or after \<open>start\<close> (all of them when
  there are fewer): so exactly \<open>limit\<close> records, the most recent ones, when the remote
  holds more.
\<close>

theorem C1_record_cap:
  "(0 \<le> p_limit args \<and> insertApiDataArrObjTypeToDb gw isInsertable args st = (r, st') \<longrightarrow>
      int (length (concat (inserted st'))) \<le> int (length (concat (inserted st))) + p_limit args) \<and>
   (0 \<le> p_limit args \<and> hasMethod gw \<and> request gw = servePages pages \<and> reqIdx st = 0 \<and>
    wellServed (p_start args) pages \<longrightarrow>
      (\<exists>st3. insertApiDataArrObjTypeToDb gw True args st = (None, st3) \<and>
         concat (inserted st3) = concat (inserted st) @
            take (nat (p_limit args)) (clipToStart (p_start args) (listing pages))))"
proof (intro conjI impI)
  assume a: "0 \<le> p_limit args \<and> insertApiDataArrObjTypeToDb gw isInsertable args st = (r, st')"
  show "int (length (concat (inserted st'))) \<le> int (length (concat (inserted st))) + p_limit args"
  proof (cases isInsertable)
    case False
    with a show ?thesis by (simp add: insertApiDataArrObjTypeToDb_def)
  next
    case True
    with a have "insertLoop gw (p_start args) (p_limit args) (args\<lparr>notThrowError := True\<rparr>) 0 0 st
                   = (r, st')"
      by (simp add: insertApiDataArrObjTypeToDb_def Let_def)
    from insertLoop_total [OF this] a show ?thesis by simp
  qed
next
  assume b: "0 \<le> p_limit args \<and> hasMethod gw \<and> request gw = servePages pages \<and> reqIdx st = 0 \<and>
    wellServed (p_start args) pages"
  then have ws: "list_all fullPage (drop 0 pages)"
      "sorted_wrt (\<lambda>a b. dateOf a \<ge> dateOf b) (listing (drop 0 pages))"
      "boundaryClosed (p_start args) (drop 0 pages)"
    by (simp_all add: wellServed_def)
  from b have gw: "hasMethod gw" "request gw = servePages pages" by simp_all
  from b have c: "reqIdx st = 0" "(0::int) \<le> 0" "0 \<le> p_limit args" by simp_all
  from served_loop [OF gw refl c ws, of "args\<lparr>notThrowError := True\<rparr>"]
  show "\<exists>st3. insertApiDataArrObjTypeToDb gw True args st = (None, st3) \<and>
         concat (inserted st3) = concat (inserted st) @
            take (nat (p_limit args)) (clipToStart (p_start args) (listing pages))"
    by (simp add: insertApiDataArrObjTypeToDb_def Let_def)
qed

theorem C1_record_cap_witness:
  "int (length (concat (inserted (snd
       (insertApiDataArrObjTypeToDb (scriptedGateway tiePages) True (mkParams 3 100 3) freshState)))))
     \<le> 3 \<and>
   concat (inserted (snd
       (insertApiDataArrObjTypeToDb (scriptedGateway sixPages) True (mkParams 4 100 3) freshState)))
     = [el 9 ''a'', el 7 ''b'', el 6 ''c'']"
proof -
  have h1: "(0::int) \<le> p_limit (mkParams 3 100 3)" by (simp add: mkParams_def)
  have h2: "(0::int) \<le> p_limit (mkParams 4 100 3)" by (simp add: mkParams_def)
  have h3: "hasMethod (scriptedGateway sixPages)"
    "request (scriptedGateway sixPages) = servePages sixPages"
    "reqIdx (freshState :: string sync_state) = 0"
    by (simp_all add: scriptedGateway_def freshState_def)
  have h4: "wellServed (p_start (mkParams 4 100 3)) sixPages" by code_simp
  have h5: "take (nat (p_limit (mkParams 4 100 3)))
              (clipToStart (p_start (mkParams 4 100 3)) (listing sixPages))
            = [el 9 ''a'', el 7 ''b'', el 6 ''c'']" by code_simp
  have h6: "inserted (freshState :: string sync_state) = []" by (simp add: freshState_def)
  from C1_record_cap [of "mkParams 3 100 3" "scriptedGateway tiePages" True freshState
      "fst (insertApiDataArrObjTypeToDb (scriptedGateway tiePages) True (mkParams 3 100 3) freshState)"
      "snd (insertApiDataArrObjTypeToDb (scriptedGateway tiePages) True (mkParams 3 100 3) freshState)"]
    h1 h6
  have p1: "int (length (concat (inserted (snd
       (insertApiDataArrObjTypeToDb (scriptedGateway tiePages) True (mkParams 3 100 3) freshState)))))
     \<le> 3" by (simp add: mkParams_def)
  from C1_record_cap [of "mkParams 4 100 3" "scriptedGateway sixPages" True freshState _ _ sixPages]
    h2 h3 h4 h5 h6
  have "\<exists>st3. insertApiDataArrObjTypeToDb (scriptedGateway sixPages) True (mkParams 4 100 3)
                 freshState = (None, st3) \<and>
              concat (inserted st3) = [el 9 ''a'', el 7 ''b'', el 6 ''c'']" by simp
  then have p2: "concat (inserted (snd
       (insertApiDataArrObjTypeToDb (scriptedGateway sixPages) True (mkParams 4 100 3) freshState)))
     = [el 9 ''a'', el 7 ''b'', el 6 ''c'']" by auto
  from p1 p2 show ?thesis by simp
qed

text \<open>
  The claim as written fails when records dated exactly \<open>start\<close> straddle a page
  boundary: the remote holds four records dated at or after 3, the limit is 3, and the
  pass stops after the first page with two records persisted, because the oldest record
  of that page is dated 3.
\<close>

theorem C1_record_cap_counterexample:
  "sorted_wrt (\<lambda>a b. dateOf a \<ge> dateOf b) (listing tiePages) \<and>
   list_all fullPage tiePages \<and>
   p_limit (mkParams 3 100 3) < int (length (clipToStart 3 (listing tiePages))) \<and>
   int (length (concat (inserted (snd
       (insertApiDataArrObjTypeToDb (scriptedGateway tiePages) True (mkParams 3 100 3)
          freshState)))))
     < p_limit (mkParams 3 100 3) \<and>
   insertApiDataArrObjTypeToDb (scriptedGateway tiePages) True (mkParams 3 100 3) freshState
     = (None, \<lparr>reqIdx = 1, calls = [(mkParams 3 100 3)\<lparr>notThrowError := True\<rparr>],
               inserted = [[el 5 ''a'', el 3 ''b'']]\<rparr>)"
  by code_simp

text \<open>
  Claim C4, as the code has it. When the loop, with no empty page with cursor just
  before, receives an empty page with a non-zero integer cursor \<open>c\<close>, the next thing it
  does is one further call, whose window ends at \<open>c\<close> (the window is not the same: \<open>end\<close>
  has been set to the cursor); when the answer to that call is again an empty page, the
  pass ends there, two calls after the start and with nothing persisted.
\<close>

theorem C4_empty_page_retry:
  assumes "hasMethod gw"
    and "request gw (reqIdx st) cur False = Inr pg1"
    and "res pg1 = Records []" and "nextPage pg1 = Some c" and "c \<noteq> 0"
  shows "(\<exists>more. calls (snd (insertLoop gw start limit cur count 0 st))
                  = calls st @ cur # cur\<lparr>p_end := Some c\<rparr> # more) \<and>
         (request gw (Suc (reqIdx st)) (cur\<lparr>p_end := Some c\<rparr>) False = Inr pg2 \<and>
          res pg2 = Records [] \<longrightarrow>
            insertLoop gw start limit cur count 0 st =
              (None, st\<lparr>reqIdx := reqIdx st + 2,
                         calls := calls st @ [cur, cur\<lparr>p_end := Some c\<rparr>]\<rparr>))"
proof -
  let ?st1 = "st\<lparr>reqIdx := Suc (reqIdx st), calls := calls st @ [cur]\<rparr>"
  let ?cur1 = "cur\<lparr>p_end := Some c\<rparr>"
  have "pageTurn start limit count 0 pg1 ?st1 = Retry"
    using assms(3-5) by (simp add: pageTurn_def isCursor_def)
  then have step: "insertLoop gw start limit cur count 0 st =
                     insertLoop gw start limit ?cur1 count 1 ?st1"
    using assms(4) by (simp add: insertLoop_page [OF assms(1,2)])
  have first: "\<exists>more. calls (snd (insertLoop gw start limit cur count 0 st))
                  = calls st @ cur # ?cur1 # more"
    using insertLoop_calls_grow [of gw start limit ?cur1 count 1 ?st1] step by simp
  have second: "insertLoop gw start limit cur count 0 st =
              (None, st\<lparr>reqIdx := reqIdx st + 2, calls := calls st @ [cur, ?cur1]\<rparr>)"
    if rq2: "request gw (Suc (reqIdx st)) ?cur1 False = Inr pg2" and e2: "res pg2 = Records []"
  proof -
    let ?st2 = "?st1\<lparr>reqIdx := Suc (reqIdx ?st1), calls := calls ?st1 @ [?cur1]\<rparr>"
    have rq2': "request gw (reqIdx ?st1) ?cur1 False = Inr pg2" using rq2 by simp
    have "pageTurn start limit count 1 pg2 ?st2 = Break ?st2"
      using e2 by (simp add: pageTurn_def)
    then have "insertLoop gw start limit ?cur1 count 1 ?st1 = (None, ?st2)"
      by (simp add: insertLoop_page [OF assms(1) rq2'])
    with step show ?thesis by simp
  qed
  from first second show ?thesis by blast
qed

theorem C4_empty_page_retry_witness:
  "insertLoop (scriptedGateway emptyPages) 0 10 (mkParams 0 100 10) 0 0 freshState =
     (None, \<lparr>reqIdx = 2, calls = [mkParams 0 100 10, mkParams 0 50 10], inserted = []\<rparr>)"
proof -
  have h: "hasMethod (scriptedGateway emptyPages)"
    "request (scriptedGateway emptyPages) (reqIdx (freshState :: string sync_state))
        (mkParams 0 100 10) False = Inr (emptyPages ! 0)"
    "res (emptyPages ! 0) = Records []" "nextPage (emptyPages ! 0) = Some 50" "(50::int) \<noteq> 0"
    "request (scriptedGateway emptyPages) (Suc (reqIdx (freshState :: string sync_state)))
        ((mkParams 0 100 10)\<lparr>p_end := Some 50\<rparr>) False = Inr (emptyPages ! 1)"
    "res (emptyPages ! 1) = Records []"
    by (simp_all add: scriptedGateway_def servePages_def emptyPages_def freshState_def)
  from C4_empty_page_retry [OF h(1-5), where ?pg2.0 = "emptyPages ! 1" and start = 0
      and limit = 10 and count = 0] h(6,7)
  show ?thesis by (simp add: mkParams_def freshState_def)
qed

text \<open>
  The retry does not repeat the window: the first call ends at 100, the retry at the
  cursor 50.
\<close>

theorem C4_empty_page_retry_counterexample:
  "calls (snd (insertApiDataArrObjTypeToDb (scriptedGateway emptyPages) True
                 (mkParams 0 100 10) freshState))
     = [(mkParams 0 100 10)\<lparr>notThrowError := True\<rparr>,
        (mkParams 0 50 10)\<lparr>notThrowError := True\<rparr>] \<and>
   (mkParams 0 50 10)\<lparr>notThrowError := True\<rparr> \<noteq> (mkParams 0 100 10)\<lparr>notThrowError := True\<rparr>"
  by code_simp

text \<open>
  Claim C9, as the code has it. When the oldest (last) record of a fetched page is
  dated with a non-zero integer at or below \<open>start\<close>, the pass ends with this call:
  no further call is issued, and exactly one slice is persisted from the page, namely
  the records of the page that are dated at or after \<open>start\<close>, in their order, cut by
  \<open>splice\<close> when they exceed what is left of the limit (to the first \<open>limit - count\<close> of
  them when the count has not passed the limit). When that date is 0, which the loop
  takes for a missing date, the pass ends with this call as well and nothing is
  persisted from the page.
\<close>

theorem C9_boundary_clipping:
  assumes "hasMethod gw"
    and "request gw (reqIdx st) cur False = Inr pg"
    and "res pg = Records rs" and "rs \<noteq> []"
    and "dateField (last rs) = Some t" and "t \<le> start"
  shows "(t \<noteq> 0 \<longrightarrow>
            insertLoop gw start limit cur count serial st =
              (None, st\<lparr>reqIdx := Suc (reqIdx st), calls := calls st @ [cur],
                         inserted := inserted st @
                           [if limit < count + int (length (clipToStart start rs))
                            then spliceFrom (limit - count) (clipToStart start rs)
                            else clipToStart start rs]\<rparr>) \<and>
            clipToStart start rs = filter (\<lambda>r. \<exists>d. dateField r = Some d \<and> start \<le> d) rs \<and>
            (count \<le> limit \<longrightarrow>
               insertLoop gw start limit cur count serial st =
                 (None, st\<lparr>reqIdx := Suc (reqIdx st), calls := calls st @ [cur],
                            inserted := inserted st @
                              [take (nat (limit - count)) (clipToStart start rs)]\<rparr>))) \<and>
         (t = 0 \<longrightarrow>
            insertLoop gw start limit cur count serial st =
              (None, st\<lparr>reqIdx := Suc (reqIdx st), calls := calls st @ [cur]\<rparr>))"
proof -
  let ?st1 = "st\<lparr>reqIdx := Suc (reqIdx st), calls := calls st @ [cur]\<rparr>"
  obtain x xs where rs: "rs = x # xs" using assms(4) by (cases rs) auto
  let ?res1 = "clipToStart start rs"
  let ?res2 = "if limit < count + int (length ?res1) then spliceFrom (limit - count) ?res1
               else ?res1"
  have zero: "insertLoop gw start limit cur count serial st = (None, ?st1)" if "t = 0"
  proof -
    have "pageTurn start limit count serial pg ?st1 = Break ?st1"
      using that assms(3,5) rs by (simp add: pageTurn_def del: last.simps)
    then show ?thesis by (simp add: insertLoop_page [OF assms(1,2)])
  qed
  have run: "insertLoop gw start limit cur count serial st =
               (None, ?st1\<lparr>inserted := inserted st @ [?res2]\<rparr>)" if "t \<noteq> 0"
  proof -
    have "pageTurn start limit count serial pg ?st1 =
            Break (?st1\<lparr>inserted := inserted ?st1 @ [?res2]\<rparr>)"
      using that assms(3,5,6) rs by (simp add: pageTurn_def Let_def del: last.simps)
    then show ?thesis by (simp add: insertLoop_page [OF assms(1,2)])
  qed
  have flt: "?res1 = filter (\<lambda>r. \<exists>d. dateField r = Some d \<and> start \<le> d) rs"
    unfolding clipToStart_def by (rule filter_cong) (auto split: option.splits)
  have tk: "?res2 = take (nat (limit - count)) ?res1" if "count \<le> limit"
    using that by (auto simp: spliceFrom_take)
  from zero run flt tk show ?thesis by simp
qed

theorem C9_boundary_clipping_witness:
  "insertLoop (scriptedGateway sixPages) 8 10 (mkParams 8 100 10) 0 0 freshState =
     (None, \<lparr>reqIdx = 1, calls = [mkParams 8 100 10], inserted = [[el 9 ''a'']]\<rparr>) \<and>
   insertLoop (scriptedGateway zeroPages) 0 10 (mkParams 0 100 10) 0 0 freshState =
     (None, \<lparr>reqIdx = 1, calls = [mkParams 0 100 10], inserted = []\<rparr>)"
proof -
  have h: "hasMethod (scriptedGateway sixPages)"
    "request (scriptedGateway sixPages) (reqIdx (freshState :: string sync_state))
        (mkParams 8 100 10) False = Inr (sixPages ! 0)"
    "res (sixPages ! 0) = Records [el 9 ''a'', el 7 ''b'']" "[el 9 ''a'', el 7 ''b''] \<noteq> []"
    "dateField (last [el 9 ''a'', el 7 ''b'']) = Some 7" "(7::int) \<le> 8"
    by (simp_all add: scriptedGateway_def servePages_def sixPages_def freshState_def el_def)
  have z: "hasMethod (scriptedGateway zeroPages)"
    "request (scriptedGateway zeroPages) (reqIdx (freshState :: string sync_state))
        (mkParams 0 100 10) False = Inr (zeroPages ! 0)"
    "res (zeroPages ! 0) = Records [el 9 ''a'', el 0 ''b'']" "[el 9 ''a'', el 0 ''b''] \<noteq> []"
    "dateField (last [el 9 ''a'', el 0 ''b'']) = Some 0" "(0::int) \<le> 0"
    by (simp_all add: scriptedGateway_def servePages_def zeroPages_def freshState_def el_def)
  have c: "take (nat (10 - 0)) (clipToStart 8 [el 9 ''a'', el 7 ''b'']) = [el 9 ''a'']"
    by (simp add: clipToStart_def el_def)
  from C9_boundary_clipping [OF h, where limit = 10 and count = 0 and serial = 0] c
  have a: "insertLoop (scriptedGateway sixPages) 8 10 (mkParams 8 100 10) 0 0 freshState =
     (None, \<lparr>reqIdx = 1, calls = [mkParams 8 100 10], inserted = [[el 9 ''a'']]\<rparr>)"
    by (simp add: freshState_def)
  from C9_boundary_clipping [OF z, where limit = 10 and count = 0 and serial = 0]
  have b: "insertLoop (scriptedGateway zeroPages) 0 10 (mkParams 0 100 10) 0 0 freshState =
     (None, \<lparr>reqIdx = 1, calls = [mkParams 0 100 10], inserted = []\<rparr>)"
    by (simp add: freshState_def)
  from a b show ?thesis by simp
qed

text \<open>
  The claim as written fails for an oldest record dated 0: with \<open>start = 0\<close> the page's
  two records, dated 9 and 0, are both dated at or after \<open>start\<close>, and the pass ends
  without persisting either.
\<close>

theorem C9_boundary_clipping_counterexample:
  "res (zeroPages ! 0) = Records [el 9 ''a'', el 0 ''b''] \<and>
   dateField (last [el 9 ''a'', el 0 ''b'']) = Some 0 \<and> (0::int) \<le> 0 \<and>
   clipToStart 0 [el 9 ''a'', el 0 ''b''] = [el 9 ''a'', el 0 ''b''] \<and>
   insertApiDataArrObjTypeToDb (scriptedGateway zeroPages) True (mkParams 0 100 10) freshState
     = (None, \<lparr>reqIdx = 1, calls = [(mkParams 0 100 10)\<lparr>notThrowError := True\<rparr>],
               inserted = []\<rparr>)"
  by code_simp

section \<open>Properties of the detector\<close>








text \<open>
  Claim C7 does not hold of the code. \<open>_getMethodCollMap\<close> copies the map and not the
  schema objects, and \<open>_checkNewConfigurablePublicData\<close> never empties \<open>schema.start\<close>:
  the entry the first run pushed is what the second run finds at its beginning, and
  after the second run the array holds the entry twice.
\<close>

theorem C7_schema_objects_shared:
  "fst firstRun = None \<and> fst secondRun = None \<and>
   startsSeenBy publicInserter = [StartPerSymbol []] \<and>
   startsSeenBy (fst (snd firstRun)) = [StartPerSymbol [btcEntry]] \<and>
   startsSeenBy (fst (snd secondRun)) = [StartPerSymbol [btcEntry, btcEntry]]"
  by code_simp
section \<open>Properties of the reconciliation\<close>












section \<open>Properties of the orchestrator\<close>

lemma published_setProgress:
  "setProgress handler p st = (r, st') \<Longrightarrow> published st' = published st @ [p] \<and> world st' = world st"
  by (auto simp: setProgress_def Let_def split: option.splits)

subsection \<open>Rounding to doubles\<close>

lemma pow2_powr: "pow2 k = 2 powr (of_int k)"
proof (cases "0 \<le> k")
  case True
  then have "2 powr (of_int k) = (2::real) powr (real (nat k))" by simp
  also have "\<dots> = 2 ^ nat k" by (simp add: powr_realpow)
  finally show ?thesis using True by (simp add: pow2_def)
next
  case False
  then have "(2::real) powr (of_int k) = 2 powr (- real (nat (- k)))" by simp
  also have "\<dots> = 1 / 2 ^ nat (- k)" by (simp add: powr_minus powr_realpow divide_simps)
  finally show ?thesis using False by (simp add: pow2_def)
qed

lemma pow2_pos: "0 < pow2 k"
  by (simp add: pow2_powr)

lemma pow2_add: "pow2 (a + b) = pow2 a * pow2 b"
  by (simp add: pow2_powr powr_add)

lemma pow2_mono: "a \<le> b \<Longrightarrow> pow2 a \<le> pow2 b"
  by (simp add: pow2_powr)

lemma pow2_nat: "0 \<le> k \<Longrightarrow> pow2 k = 2 ^ nat k"
  by (simp add: pow2_def)

lemma pow2_1: "pow2 1 = 2"
  by (simp add: pow2_def)

lemma pow2_Suc: "pow2 (k + 1) = pow2 k * 2"
  by (simp only: pow2_add pow2_1)

lemma pow2_inverse: "pow2 a * pow2 (- a) = 1"
  using pow2_add [of a "- a"] by (simp add: pow2_def)

lemma binade_bounds:
  assumes "0 < x"
  shows "pow2 (binade x) \<le> x \<and> x < pow2 (binade x + 1)"
proof (cases "1 \<le> x")
  case True
  let ?m = "\<lfloor>x\<rfloor>"
  from True have m: "0 < ?m" by simp
  then have b1: "1 \<le> bitlen ?m" by (simp add: bitlen_alt_def)
  from bitlen_bounds [OF m] have lo: "2 ^ nat (bitlen ?m - 1) \<le> ?m"
    and hi: "?m < 2 ^ nat (bitlen ?m)" by simp_all
  have "real_of_int (2 ^ nat (bitlen ?m - 1)) \<le> real_of_int ?m" using lo by linarith
  then have "(2::real) ^ nat (bitlen ?m - 1) \<le> x" by (simp add: le_floor_iff)
  moreover have "?m + 1 \<le> 2 ^ nat (bitlen ?m)" using hi by simp
  then have "real_of_int (?m + 1) \<le> real_of_int (2 ^ nat (bitlen ?m))" by linarith
  then have "x < (2::real) ^ nat (bitlen ?m)" by simp linarith
  ultimately show ?thesis using True b1 by (simp add: binade_def pow2_nat)
next
  case False
  with assms have x1: "x < 1" "1 < 1 / x" by simp_all
  let ?n = "\<lfloor>1 / x\<rfloor>"
  let ?k = "bitlen ?n - 1"
  from x1 have n: "0 < ?n" by simp
  then have b1: "1 \<le> bitlen ?n" by (simp add: bitlen_alt_def)
  then have k0: "0 \<le> ?k" by simp
  from bitlen_bounds [OF n] have lo: "2 ^ nat ?k \<le> ?n"
    and hi: "?n < 2 ^ nat (bitlen ?n)" by simp_all
  have "real_of_int (2 ^ nat ?k) \<le> real_of_int ?n" using lo by linarith
  then have lo': "(2::real) ^ nat ?k \<le> 1 / x" by (simp add: le_floor_iff)
  have "?n + 1 \<le> 2 ^ nat (bitlen ?n)" using hi by simp
  then have "real_of_int (?n + 1) \<le> real_of_int (2 ^ nat (bitlen ?n))" by linarith
  then have hi': "1 / x < (2::real) ^ nat (bitlen ?n)" by simp linarith
  have nat_suc: "nat (bitlen ?n) = Suc (nat ?k)" using b1 by simp
  from lo' assms have ub: "x * 2 ^ nat ?k \<le> 1" by (simp add: field_simps)
  from hi' assms have lb: "1 < x * 2 ^ nat (bitlen ?n)" by (simp add: field_simps)
  show ?thesis
  proof (cases "x * 2 ^ nat ?k = 1")
    case True
    then have e: "binade x = - ?k" using False by (simp add: binade_def Let_def)
    from True have x: "x = 1 / 2 ^ nat ?k" by (simp add: field_simps)
    have p: "pow2 (- ?k) = 1 / 2 ^ nat ?k"
      using k0 pow2_inverse [of ?k] by (simp add: pow2_nat field_simps)
    have "pow2 (- ?k + 1) = pow2 (- ?k) * 2" by (rule pow2_Suc)
    with p x e assms show ?thesis by simp
  next
    case neq: False
    then have e: "binade x = - (?k + 1)" using False by (simp add: binade_def Let_def)
    have p: "pow2 (- ?k) = 1 / 2 ^ nat ?k"
      using k0 pow2_inverse [of ?k] by (simp add: pow2_nat field_simps)
    have q: "pow2 (- (?k + 1)) = 1 / 2 ^ nat (bitlen ?n)"
      using b1 pow2_inverse [of "?k + 1"] by (simp add: pow2_nat field_simps)
    from ub neq have "x * 2 ^ nat ?k < 1" by simp
    then have "x < 1 / 2 ^ nat ?k" by (simp add: field_simps)
    moreover from lb have "1 / 2 ^ nat (bitlen ?n) \<le> x" by (simp add: field_simps)
    ultimately show ?thesis using e p q by simp
  qed
qed


lemma roundHalfEven_ge_floor: "\<lfloor>y\<rfloor> \<le> roundHalfEven y"
  by (simp add: roundHalfEven_def Let_def)

lemma roundHalfEven_le_floor: "roundHalfEven y \<le> \<lfloor>y\<rfloor> + 1"
  by (simp add: roundHalfEven_def Let_def)

lemma roundHalfEven_of_int: "roundHalfEven (of_int n) = n"
  by (simp add: roundHalfEven_def Let_def)

lemma roundHalfEven_mono:
  assumes "y \<le> z"
  shows "roundHalfEven y \<le> roundHalfEven z"
proof (cases "\<lfloor>y\<rfloor> = \<lfloor>z\<rfloor>")
  case True
  with assms have "y - of_int \<lfloor>y\<rfloor> \<le> z - of_int \<lfloor>z\<rfloor>" by simp
  with True show ?thesis by (auto simp: roundHalfEven_def Let_def)
next
  case False
  with assms have "\<lfloor>y\<rfloor> < \<lfloor>z\<rfloor>" using floor_mono [of y z] by linarith
  then have "\<lfloor>y\<rfloor> + 1 \<le> \<lfloor>z\<rfloor>" by simp
  with roundHalfEven_le_floor [of y] roundHalfEven_ge_floor [of z] show ?thesis by linarith
qed

lemma toDouble_pos:
  "0 < x \<Longrightarrow> toDouble x
     = of_int (roundHalfEven (x * pow2 (52 - binade x))) * pow2 (binade x - 52)"
  by (simp add: toDouble_def)

lemma pow2_52: "pow2 52 = of_int (2 ^ 52)" and pow2_53: "pow2 53 = of_int (2 ^ 53)"
  by (simp_all add: pow2_def)

lemma scaled_bounds:
  assumes "0 < x"
  shows "pow2 52 \<le> x * pow2 (52 - binade x)" and "x * pow2 (52 - binade x) < pow2 53"
proof -
  let ?e = "binade x"
  from binade_bounds [OF assms] have lo: "pow2 ?e \<le> x" and hi: "x < pow2 (?e + 1)" by simp_all
  have "pow2 ?e * pow2 (52 - ?e) \<le> x * pow2 (52 - ?e)"
    using lo pow2_pos [of "52 - ?e"] by (simp add: mult_right_mono)
  moreover have "pow2 ?e * pow2 (52 - ?e) = pow2 52"
    using pow2_add [of ?e "52 - ?e"] by simp
  ultimately show "pow2 52 \<le> x * pow2 (52 - ?e)" by simp
  have "x * pow2 (52 - ?e) < pow2 (?e + 1) * pow2 (52 - ?e)"
    using hi pow2_pos [of "52 - ?e"] by (simp add: mult_strict_right_mono)
  moreover have "pow2 (?e + 1) * pow2 (52 - ?e) = pow2 53"
    using pow2_add [of "?e + 1" "52 - ?e"] by simp
  ultimately show "x * pow2 (52 - ?e) < pow2 53" by simp
qed

lemma toDouble_pos_bounds:
  assumes "0 < x"
  shows "pow2 (binade x) \<le> toDouble x" and "toDouble x \<le> pow2 (binade x + 1)"
proof -
  let ?e = "binade x"
  let ?y = "x * pow2 (52 - ?e)"
  let ?r = "roundHalfEven ?y"
  from scaled_bounds [OF assms] have lo: "of_int (2 ^ 52) \<le> ?y" and hi: "?y < of_int (2 ^ 53)"
    by (simp_all add: pow2_52 pow2_53)
  from lo have "2 ^ 52 \<le> \<lfloor>?y\<rfloor>" by (simp only: le_floor_iff)
  with roundHalfEven_ge_floor [of ?y] have r1: "2 ^ 52 \<le> ?r" by linarith
  from hi have "\<lfloor>?y\<rfloor> < 2 ^ 53" by (simp only: floor_less_iff)
  with roundHalfEven_le_floor [of ?y] have r2: "?r \<le> 2 ^ 53" by linarith
  from r1 have "real_of_int (2 ^ 52) \<le> real_of_int ?r" by (simp only: of_int_le_iff)
  then have "pow2 52 * pow2 (?e - 52) \<le> real_of_int ?r * pow2 (?e - 52)"
    using pow2_pos [of "?e - 52"] by (simp add: pow2_52 mult_right_mono)
  moreover have "pow2 52 * pow2 (?e - 52) = pow2 ?e" using pow2_add [of 52 "?e - 52"] by simp
  ultimately show "pow2 ?e \<le> toDouble x" by (simp add: toDouble_pos [OF assms])
  from r2 have "real_of_int ?r \<le> real_of_int (2 ^ 53)" by (simp only: of_int_le_iff)
  then have "real_of_int ?r * pow2 (?e - 52) \<le> pow2 53 * pow2 (?e - 52)"
    using pow2_pos [of "?e - 52"] by (simp add: pow2_53 mult_right_mono)
  moreover have "pow2 53 * pow2 (?e - 52) = pow2 (?e + 1)"
    using pow2_add [of 53 "?e - 52"] by (simp add: add.commute)
  ultimately show "toDouble x \<le> pow2 (?e + 1)" by (simp add: toDouble_pos [OF assms])
qed

lemma binade_mono:
  assumes "0 < x" "x \<le> y"
  shows "binade x \<le> binade y"
proof (rule ccontr)
  assume "\<not> binade x \<le> binade y"
  then have "binade y + 1 \<le> binade x" by simp
  then have "pow2 (binade y + 1) \<le> pow2 (binade x)" by (rule pow2_mono)
  moreover from assms have "0 < y" by simp
  ultimately show False
    using binade_bounds [OF assms(1)] binade_bounds [OF \<open>0 < y\<close>] assms(2) by linarith
qed

lemma toDouble_mono_pos:
  assumes "0 < x" "x \<le> y"
  shows "toDouble x \<le> toDouble y"
proof -
  from assms have y: "0 < y" by simp
  show ?thesis
  proof (cases "binade x = binade y")
    case True
    have "x * pow2 (52 - binade y) \<le> y * pow2 (52 - binade y)"
      using assms(2) pow2_pos [of "52 - binade y"] by (simp add: mult_right_mono)
    then have "roundHalfEven (x * pow2 (52 - binade y)) \<le> roundHalfEven (y * pow2 (52 - binade y))"
      by (rule roundHalfEven_mono)
    then have "real_of_int (roundHalfEven (x * pow2 (52 - binade y))) * pow2 (binade y - 52)
                 \<le> real_of_int (roundHalfEven (y * pow2 (52 - binade y))) * pow2 (binade y - 52)"
      using pow2_pos [of "binade y - 52"] by (simp add: mult_right_mono)
    then show ?thesis using True by (simp add: toDouble_pos [OF assms(1)] toDouble_pos [OF y])
  next
    case False
    with binade_mono [OF assms] have "binade x + 1 \<le> binade y" by simp
    then have "pow2 (binade x + 1) \<le> pow2 (binade y)" by (rule pow2_mono)
    with toDouble_pos_bounds(2) [OF assms(1)] toDouble_pos_bounds(1) [OF y]
    show ?thesis by linarith
  qed
qed

lemma toDouble_0: "toDouble 0 = 0"
  by (simp add: toDouble_def)

lemma toDouble_nonneg: "0 \<le> x \<Longrightarrow> 0 \<le> toDouble x"
proof (cases "x = 0")
  case True
  then show ?thesis by (simp add: toDouble_0)
next
  case False
  assume "0 \<le> x"
  with False have "0 < x" by simp
  from toDouble_pos_bounds(1) [OF this] pow2_pos [of "binade x"] show ?thesis by linarith
qed

lemma toDouble_mono:
  assumes "0 \<le> x" "x \<le> y"
  shows "toDouble x \<le> toDouble y"
proof (cases "x = 0")
  case True
  with assms toDouble_nonneg [of y] show ?thesis by (simp add: toDouble_0)
next
  case False
  with assms have "0 < x" by simp
  then show ?thesis using assms(2) by (rule toDouble_mono_pos)
qed

lemma toDouble_of_int:
  assumes "0 \<le> k" "k < 2 ^ 53"
  shows "toDouble (of_int k) = of_int k"
proof (cases "k = 0")
  case True
  then show ?thesis by (simp add: toDouble_0)
next
  case False
  with assms have k: "0 < real_of_int k" by simp
  let ?e = "binade (of_int k)"
  from binade_bounds [OF k] have "pow2 ?e \<le> of_int k" by simp
  also have "real_of_int k < pow2 53" using assms(2) by (simp add: pow2_53)
  finally have "pow2 ?e < pow2 53" .
  then have e: "?e \<le> 52" using pow2_mono [of 53 ?e] by (cases "53 \<le> ?e") auto
  then have "pow2 (52 - ?e) = of_int (2 ^ nat (52 - ?e))" by (simp add: pow2_nat)
  then have "real_of_int k * pow2 (52 - ?e) = of_int (k * 2 ^ nat (52 - ?e))" by simp
  then have "roundHalfEven (real_of_int k * pow2 (52 - ?e)) = k * 2 ^ nat (52 - ?e)"
    by (simp only: roundHalfEven_of_int)
  then have "toDouble (of_int k) = of_int (k * 2 ^ nat (52 - ?e)) * pow2 (?e - 52)"
    by (simp add: toDouble_pos [OF k])
  also have "\<dots> = of_int k * (pow2 (52 - ?e) * pow2 (?e - 52))"
    using e by (simp add: pow2_nat)
  also have "pow2 (52 - ?e) * pow2 (?e - 52) = 1"
    using pow2_inverse [of "52 - ?e"] by simp
  finally show ?thesis by simp
qed

lemma toDouble_1: "toDouble 1 = 1"
  using toDouble_of_int [of 1] by simp

lemma toDouble_100: "toDouble 100 = 100"
  using toDouble_of_int [of 100] by simp

lemma mathRound_mono: "x \<le> y \<Longrightarrow> mathRound x \<le> mathRound y"
  unfolding mathRound_def by (intro floor_mono) simp

lemma mathRound_of_int: "mathRound (of_int k) = k"
  unfolding mathRound_def by linarith

lemma jsDivide_unit:
  assumes "c \<le> n" "n \<noteq> 0"
  shows "\<exists>r. jsDivide (real c) (real n) = Some r \<and> 0 \<le> r \<and> r \<le> 1"
proof -
  from assms have q: "0 \<le> real c / real n" "real c / real n \<le> 1" by simp_all
  from toDouble_nonneg [OF q(1)] toDouble_mono [OF q] assms(2)
  show ?thesis by (simp add: jsDivide_def toDouble_1)
qed

lemma jsDivide_mono:
  assumes "c \<le> c'" "jsDivide (real c) (real n) = Some q" "jsDivide (real c') (real n) = Some q'"
  shows "0 \<le> q \<and> q \<le> q'"
proof -
  from assms(2,3) have n: "n \<noteq> 0" and q: "q = toDouble (real c / real n)"
    and q': "q' = toDouble (real c' / real n)"
    by (auto simp: jsDivide_def split: if_splits)
  have a: "0 \<le> real c / real n" by simp
  have b: "real c / real n \<le> real c' / real n" using assms(1) by (simp add: divide_right_mono)
  from toDouble_nonneg [OF a] toDouble_mono [OF a b] show ?thesis by (simp add: q q')
qed

lemma scaled_mono:
  assumes "0 \<le> q" "q \<le> q'" "0 \<le> a"
  shows "0 \<le> jsTimes (jsTimes q 100) a"
    and "jsTimes (jsTimes q 100) a \<le> jsTimes (jsTimes q' 100) a"
proof -
  from assms have s: "0 \<le> q * 100" "q * 100 \<le> q' * 100" by simp_all
  from toDouble_nonneg [OF s(1)] toDouble_mono [OF s]
  have t: "0 \<le> jsTimes q 100" "jsTimes q 100 \<le> jsTimes q' 100" by (simp_all add: jsTimes_def)
  from t assms(3) have u: "0 \<le> jsTimes q 100 * a" by simp
  from t(2) assms(3) have v: "jsTimes q 100 * a \<le> jsTimes q' 100 * a" by (rule mult_right_mono)
  from toDouble_nonneg [OF u] show "0 \<le> jsTimes (jsTimes q 100) a"
    by (simp add: jsTimes_def [of "jsTimes q 100" a])
  from toDouble_mono [OF u v] show "jsTimes (jsTimes q 100) a \<le> jsTimes (jsTimes q' 100) a"
    by (simp add: jsTimes_def [of "jsTimes q 100" a] jsTimes_def [of "jsTimes q' 100" a])
qed

lemma scaled_le_100:
  assumes "0 \<le> q" "q \<le> 1" "0 \<le> a" "a \<le> 1"
  shows "jsTimes (jsTimes q 100) a \<le> 100"
proof -
  from assms have s: "0 \<le> q * 100" "q * 100 \<le> 100" by simp_all
  from toDouble_nonneg [OF s(1)] toDouble_mono [OF s]
  have t: "0 \<le> jsTimes q 100" "jsTimes q 100 \<le> 100" by (simp_all add: jsTimes_def toDouble_100)
  from t assms(3) have u: "0 \<le> jsTimes q 100 * a" by simp
  from t assms(3,4) have "jsTimes q 100 * a \<le> 100 * 1" by (intro mult_mono) simp_all
  then have v: "jsTimes q 100 * a \<le> 100" by simp
  from toDouble_mono [OF u v] show ?thesis
    by (simp add: jsTimes_def [of "jsTimes q 100" a] toDouble_100)
qed

lemma accountProgress_mono:
  assumes "c \<le> c'" "\<forall>r. u = Some r \<longrightarrow> 0 \<le> r"
    and "accountProgress c n u = Some a" "accountProgress c' n u = Some b"
  shows "a \<le> b"
proof -
  from assms(3) obtain q r where q: "jsDivide (real c) (real n) = Some q" and r: "u = Some r"
    and a: "a = mathRound (jsTimes (jsTimes q 100) r)"
    by (auto simp: accountProgress_def split: option.splits)
  from assms(4) r obtain q' where q': "jsDivide (real c') (real n) = Some q'"
    and b: "b = mathRound (jsTimes (jsTimes q' 100) r)"
    by (auto simp: accountProgress_def split: option.splits)
  from jsDivide_mono [OF assms(1) q q'] have "0 \<le> q" "q \<le> q'" by simp_all
  moreover from assms(2) r have "0 \<le> r" by simp
  ultimately have "jsTimes (jsTimes q 100) r \<le> jsTimes (jsTimes q' 100) r" by (rule scaled_mono)
  then show ?thesis unfolding a b by (rule mathRound_mono)
qed

lemma accountProgress_bounds:
  assumes "c \<le> n" "0 \<le> r" "r \<le> 1" "accountProgress c n (Some r) = Some a"
  shows "0 \<le> a \<and> a \<le> 100"
proof -
  from assms(4) obtain q where q: "jsDivide (real c) (real n) = Some q"
    and a: "a = mathRound (jsTimes (jsTimes q 100) r)"
    by (auto simp: accountProgress_def split: option.splits)
  from q have n: "n \<noteq> 0" by (auto simp: jsDivide_def split: if_splits)
  from jsDivide_unit [OF assms(1) n] q have q01: "0 \<le> q" "q \<le> 1" by simp_all
  from scaled_mono(1) [OF q01(1) order_refl assms(2)]
  have "mathRound 0 \<le> a" unfolding a by (rule mathRound_mono)
  moreover from scaled_le_100 [OF q01 assms(2,3)]
  have "a \<le> mathRound 100" unfolding a by (rule mathRound_mono)
  ultimately show ?thesis using mathRound_of_int [of 0] mathRound_of_int [of 100] by simp
qed

lemma accountProgress_defined:
  "n \<noteq> 0 \<Longrightarrow> \<exists>a. accountProgress c n (Some r) = Some a"
  by (simp add: accountProgress_def jsDivide_def)

lemma remainder_nonneg:
  assumes "0 \<le> v" "v \<le> 100"
  shows "0 \<le> toDouble (jsMinus 100 (real_of_int v) / 100)"
proof -
  from assms have "0 \<le> 100 - real_of_int v" by simp
  then have "0 \<le> jsMinus 100 (real_of_int v)" unfolding jsMinus_def by (rule toDouble_nonneg)
  then have "0 \<le> jsMinus 100 (real_of_int v) / 100" by simp
  then show ?thesis by (rule toDouble_nonneg)
qed

lemma publicProgress_mono:
  assumes "c \<le> c'" "\<forall>v. prev = Some v \<longrightarrow> 0 \<le> v \<and> v \<le> 100"
    and "publicProgress c n prev = Some a" "publicProgress c' n prev = Some b"
  shows "a \<le> b"
proof -
  let ?rest = "\<lambda>v. toDouble (jsMinus 100 (real_of_int v) / 100)"
  from assms(3) obtain q v where q: "jsDivide (real c) (real n) = Some q" and v: "prev = Some v"
    and a: "a = mathRound (jsPlus (real_of_int v) (jsTimes (jsTimes q 100) (?rest v)))"
    by (auto simp: publicProgress_def split: option.splits)
  from assms(4) v obtain q' where q': "jsDivide (real c') (real n) = Some q'"
    and b: "b = mathRound (jsPlus (real_of_int v) (jsTimes (jsTimes q' 100) (?rest v)))"
    by (auto simp: publicProgress_def split: option.splits)
  from assms(2) v have v0: "0 \<le> v" "v \<le> 100" by simp_all
  from jsDivide_mono [OF assms(1) q q'] have qq: "0 \<le> q" "q \<le> q'" by simp_all
  from scaled_mono [OF qq remainder_nonneg [OF v0]]
  have s: "0 \<le> jsTimes (jsTimes q 100) (?rest v)"
    "jsTimes (jsTimes q 100) (?rest v) \<le> jsTimes (jsTimes q' 100) (?rest v)" by simp_all
  from s(1) v0(1) have x: "0 \<le> real_of_int v + jsTimes (jsTimes q 100) (?rest v)" by simp
  from s(2) have y: "real_of_int v + jsTimes (jsTimes q 100) (?rest v)
                       \<le> real_of_int v + jsTimes (jsTimes q' 100) (?rest v)" by simp
  from toDouble_mono [OF x y] show ?thesis unfolding a b jsPlus_def by (rule mathRound_mono)
qed

lemma publicProgress_ge_prev:
  assumes "0 \<le> v" "v \<le> 100" "publicProgress c n (Some v) = Some a"
  shows "v \<le> a"
proof -
  let ?rest = "toDouble (jsMinus 100 (real_of_int v) / 100)"
  from assms(3) obtain q where q: "jsDivide (real c) (real n) = Some q"
    and a: "a = mathRound (jsPlus (real_of_int v) (jsTimes (jsTimes q 100) ?rest))"
    by (auto simp: publicProgress_def split: option.splits)
  from jsDivide_mono [OF order_refl q q] have q0: "0 \<le> q" by simp
  from scaled_mono(1) [OF q0 order_refl remainder_nonneg [OF assms(1,2)]]
  have s: "0 \<le> jsTimes (jsTimes q 100) ?rest" .
  from assms(1) have x: "0 \<le> real_of_int v" by simp
  from s have y: "real_of_int v \<le> real_of_int v + jsTimes (jsTimes q 100) ?rest" by simp
  from assms have "toDouble (real_of_int v) = real_of_int v" by (intro toDouble_of_int) simp_all
  with toDouble_mono [OF x y]
  have "real_of_int v \<le> jsPlus (real_of_int v) (jsTimes (jsTimes q 100) ?rest)"
    by (simp add: jsPlus_def)
  then have "mathRound (real_of_int v) \<le> a" unfolding a by (rule mathRound_mono)
  then show ?thesis by (simp add: mathRound_of_int)
qed

text \<open>
  Evaluation of the arithmetic on literals: \<open>toDouble\<close> is unfolded for a literal
  argument only.
\<close>

lemma toDouble_eval:
  "toDouble (numeral a)
     = of_int (roundHalfEven (numeral a * pow2 (52 - binade (numeral a))))
         * pow2 (binade (numeral a) - 52)"
  "toDouble (numeral a / numeral b)
     = of_int (roundHalfEven (numeral a / numeral b * pow2 (52 - binade (numeral a / numeral b))))
         * pow2 (binade (numeral a / numeral b) - 52)"
  "toDouble (1 / numeral b)
     = of_int (roundHalfEven (1 / numeral b * pow2 (52 - binade (1 / numeral b))))
         * pow2 (binade (1 / numeral b) - 52)"
  by (simp_all add: toDouble_def)

lemma bitlen_eval:
  "bitlen 1 = 1"
  "bitlen (numeral n) = bitlen (numeral n div 2) + 1"
  by (simp_all add: compute_bitlen [of 1] compute_bitlen [of "numeral n"])

lemmas double_eval = toDouble_0 toDouble_1 toDouble_eval bitlen_eval binade_def
  roundHalfEven_def pow2_def Let_def jsDivide_def jsTimes_def jsPlus_def jsMinus_def
  mathRound_def accountProgress_def publicProgress_def

lemmas run_eval = insertNewDataToDbMultiUser_def insertNewDataToDb_def
  insertNewPublicDataToDb_def setProgress_def below100_def double_eval
  busyOperations_def quietOperations_def fourEntries_def countedInsert_def
  noPublicEntries_def twoPublicEntries_def countedPublicInsert_def keyedAuth_def
  idleState_def

text \<open>
  The formulas are evaluated in doubles: over the reals \<open>(1 / 6) * 100 * 0.75\<close> is 12.5
  and rounds to 13, and \<open>1 + (1 / 6) * 100 * 0.99\<close> is 17.5 and rounds to 18; in doubles
  the results fall just below the half, and the code publishes 12 and 17.
\<close>

lemma progress_in_doubles:
  "toDouble (1 / 6) = 6004799503160661 / 36028797018963968"
  "accountProgress 1 6 (Some (toDouble (3 / 4))) = Some 12"
  "publicProgress 1 6 (Some 1) = Some 17"
  "mathRound (1 / 6 * 100 * (3 / 4)) = 13"
  "mathRound (1 + 1 / 6 * 100 * ((100 - 1) / 100)) = 18"
  by (simp_all add: double_eval)

subsection \<open>The progress values of a run\<close>

lemma accountLoop_sorted:
  assumes "\<forall>r. u = Some r \<longrightarrow> 0 \<le> r"
  shows "accountLoop ops handler au u entries count prog st = Inr (p, st') \<Longrightarrow>
     \<exists>ps. published st' = published st @ map Percent ps \<and> sorted ps \<and>
          (\<forall>v \<in> set ps. \<exists>c. count < c \<and> c \<le> count + length entries \<and>
                             accountProgress c (collMapSize ops) u = Some v) \<and>
          p = (if entries = [] then prog
               else accountProgress (count + length entries) (collMapSize ops) u)"
proof (induction entries arbitrary: count prog st)
  case Nil
  then show ?case by (intro exI [of _ "[]"]) simp
next
  case (Cons entry entries)
  from Cons.prems obtain w' where w': "insertAccountData ops au entry (world st) = Inr w'"
    by (auto split: sum.splits)
  let ?st1 = "st\<lparr>world := w'\<rparr>"
  let ?pr = "accountProgress (Suc count) (collMapSize ops) u"
  have last_value: "(if entries = [] then ?pr
                     else accountProgress (Suc count + length entries) (collMapSize ops) u)
                    = accountProgress (count + length (entry # entries)) (collMapSize ops) u"
    by simp
  show ?case
  proof (cases "below100 ?pr")
    case False
    with Cons.prems w' have "accountLoop ops handler au u entries (Suc count) ?pr ?st1 = Inr (p, st')"
      by (simp add: Let_def)
    from Cons.IH [OF this] obtain ps where ps: "published st' = published ?st1 @ map Percent ps"
      "sorted ps"
      "\<forall>v \<in> set ps. \<exists>c. Suc count < c \<and> c \<le> Suc count + length entries \<and>
                         accountProgress c (collMapSize ops) u = Some v"
      "p = (if entries = [] then ?pr
            else accountProgress (Suc count + length entries) (collMapSize ops) u)"
      by blast
    from ps(3) have "\<forall>v \<in> set ps. \<exists>c. count < c \<and> c \<le> count + length (entry # entries) \<and>
                         accountProgress c (collMapSize ops) u = Some v"
      by (auto dest!: bspec intro: Suc_lessD)
    moreover from ps(4) last_value
    have "p = accountProgress (count + length (entry # entries)) (collMapSize ops) u"
      by (simp only:)
    ultimately show ?thesis using ps(1,2) by (intro exI [of _ ps]) simp
  next
    case True
    then obtain v where v: "?pr = Some v" by (auto simp: below100_def split: option.splits)
    obtain r st2 where sp: "setProgress handler (Percent v) ?st1 = (r, st2)"
      by (cases "setProgress handler (Percent v) ?st1")
    with Cons.prems w' True v have r: "r = None"
      and run: "accountLoop ops handler au u entries (Suc count) ?pr st2 = Inr (p, st')"
      by (auto simp: Let_def split: option.splits)
    from published_setProgress [OF sp] have pub2: "published st2 = published st @ [Percent v]"
      by simp
    from Cons.IH [OF run] obtain ps where ps: "published st' = published st2 @ map Percent ps"
      "sorted ps"
      "\<forall>x \<in> set ps. \<exists>c. Suc count < c \<and> c \<le> Suc count + length entries \<and>
                         accountProgress c (collMapSize ops) u = Some x"
      "p = (if entries = [] then ?pr
            else accountProgress (Suc count + length entries) (collMapSize ops) u)"
      by blast
    have "\<forall>x \<in> set ps. v \<le> x"
    proof
      fix x assume "x \<in> set ps"
      with ps(3) obtain c where c: "c > Suc count" "accountProgress c (collMapSize ops) u = Some x"
        by blast
      from accountProgress_mono [OF _ assms v c(2)] c(1) show "v \<le> x" by simp
    qed
    with ps(2) have "sorted (v # ps)" by simp
    moreover have "published st' = published st @ map Percent (v # ps)"
      using ps(1) pub2 by simp
    moreover have "\<forall>x \<in> set (v # ps). \<exists>c. count < c \<and> c \<le> count + length (entry # entries) \<and>
                         accountProgress c (collMapSize ops) u = Some x"
    proof
      fix x assume "x \<in> set (v # ps)"
      then consider "x = v" | "x \<in> set ps" by auto
      then show "\<exists>c. count < c \<and> c \<le> count + length (entry # entries) \<and>
                         accountProgress c (collMapSize ops) u = Some x"
      proof cases
        case 1
        with v show ?thesis by (intro exI [of _ "Suc count"]) simp
      next
        case 2
        with ps(3) obtain c where "Suc count < c" "c \<le> Suc count + length entries"
          "accountProgress c (collMapSize ops) u = Some x" by blast
        then show ?thesis by (intro exI [of _ c]) simp
      qed
    qed
    moreover from ps(4) last_value
    have "p = accountProgress (count + length (entry # entries)) (collMapSize ops) u"
      by (simp only:)
    ultimately show ?thesis by (intro exI [of _ "v # ps"]) simp
  qed
qed

lemma publicLoop_sorted:
  assumes "\<forall>v. prev = Some v \<longrightarrow> 0 \<le> v \<and> v \<le> 100"
  shows "publicLoop ops handler prev n entries count st = Inr st' \<Longrightarrow>
     \<exists>ps. published st' = published st @ map Percent ps \<and> sorted ps \<and>
          (\<forall>v \<in> set ps. v < 100 \<and> (\<exists>c > count. publicProgress c n prev = Some v))"
proof (induction entries arbitrary: count st)
  case Nil
  then show ?case by (intro exI [of _ "[]"]) simp
next
  case (Cons entry entries)
  from Cons.prems obtain w' where w': "insertPublicData ops entry (world st) = Inr w'"
    by (auto split: sum.splits)
  let ?st1 = "st\<lparr>world := w'\<rparr>"
  let ?pr = "publicProgress (Suc count) n prev"
  show ?case
  proof (cases "below100 ?pr")
    case False
    with Cons.prems w' have "publicLoop ops handler prev n entries (Suc count) ?st1 = Inr st'"
      by (simp add: Let_def)
    from Cons.IH [OF this] obtain ps where ps: "published st' = published ?st1 @ map Percent ps"
      "sorted ps"
      "\<forall>v \<in> set ps. v < 100 \<and> (\<exists>c > Suc count. publicProgress c n prev = Some v)"
      by blast
    from ps(3) have "\<forall>v \<in> set ps. v < 100 \<and> (\<exists>c > count. publicProgress c n prev = Some v)"
      using Suc_lessD by blast
    with ps(1,2) show ?thesis by (intro exI [of _ ps]) simp
  next
    case True
    then obtain v where v: "?pr = Some v" "v < 100"
      by (auto simp: below100_def split: option.splits)
    obtain r st2 where sp: "setProgress handler (Percent v) ?st1 = (r, st2)"
      by (cases "setProgress handler (Percent v) ?st1")
    with Cons.prems w' True v have r: "r = None"
      and run: "publicLoop ops handler prev n entries (Suc count) st2 = Inr st'"
      by (auto simp: Let_def split: option.splits)
    from published_setProgress [OF sp] have pub2: "published st2 = published st @ [Percent v]"
      by simp
    from Cons.IH [OF run] obtain ps where ps: "published st' = published st2 @ map Percent ps"
      "sorted ps"
      "\<forall>x \<in> set ps. x < 100 \<and> (\<exists>c > Suc count. publicProgress c n prev = Some x)"
      by blast
    have "\<forall>x \<in> set ps. v \<le> x"
    proof
      fix x assume "x \<in> set ps"
      with ps(3) obtain c where c: "c > Suc count" "publicProgress c n prev = Some x"
        by blast
      from publicProgress_mono [OF _ assms v(1) c(2)] c(1) show "v \<le> x" by simp
    qed
    with ps(2) have "sorted (v # ps)" by simp
    moreover have "published st' = published st @ map Percent (v # ps)"
      using ps(1) pub2 by simp
    moreover have "\<forall>x \<in> set (v # ps). x < 100 \<and> (\<exists>c > count. publicProgress c n prev = Some x)"
      using ps(3) v Suc_lessD by (metis lessI set_ConsD)
    ultimately show ?thesis by blast
  qed
qed

text \<open>
  One account with string keys and a weight between 0 and 1, when the filtered map that
  \<open>checkNewData\<close> returns has no more entries than \<open>this._methodCollMap\<close>: the values
  passed to \<open>setProgress\<close> are non-decreasing, and none is below 0 or above the progress
  returned, which lies between 0 and 100.
\<close>

lemma insertNewDataToDb_pass:
  assumes keys: "apiKey au \<noteq> None" "apiSecret au \<noteq> None"
    and weight: "0 \<le> r" "r \<le> 1"
    and filtered: "\<forall>w es w'. checkNewData ops au w = Inr (es, w') \<longrightarrow> length es \<le> collMapSize ops"
    and run: "insertNewDataToDb ops handler au (Some r) st = Inr (p, st')"
  shows "\<exists>ps q. p = Some q \<and> 0 \<le> q \<and> q \<le> 100 \<and>
           published st' = published st @ map Percent ps \<and> sorted ps \<and>
           (\<forall>v \<in> set ps. 0 \<le> v \<and> v \<le> q)"
proof -
  from keys run obtain entries w' where
    chk: "checkNewData ops au (world st) = Inr (entries, w')" and
    loop: "accountLoop ops handler au (Some r) entries 0 (Some 0) (st\<lparr>world := w'\<rparr>) = Inr (p, st')"
    by (auto simp: insertNewDataToDb_def split: sum.splits)
  from filtered chk have len: "length entries \<le> collMapSize ops" by blast
  have u: "\<forall>x. Some r = Some x \<longrightarrow> 0 \<le> x" using weight(1) by simp
  from accountLoop_sorted [OF u loop] obtain ps where
    ps: "published st' = published st @ map Percent ps" "sorted ps"
      "\<forall>v \<in> set ps. \<exists>c. 0 < c \<and> c \<le> length entries \<and>
                         accountProgress c (collMapSize ops) (Some r) = Some v"
      "p = (if entries = [] then Some 0
            else accountProgress (length entries) (collMapSize ops) (Some r))"
    by auto
  show ?thesis
  proof (cases "entries = []")
    case True
    with ps(3) have "ps = []" by (cases ps) auto
    with ps(1,4) True show ?thesis by (intro exI [of _ "[]"] exI [of _ 0]) simp
  next
    case False
    with len have n: "collMapSize ops \<noteq> 0" by (cases entries) auto
    from accountProgress_defined [OF n] obtain q where
      q: "accountProgress (length entries) (collMapSize ops) (Some r) = Some q" by blast
    from accountProgress_bounds [OF len weight q] have q100: "0 \<le> q" "q \<le> 100" by simp_all
    have "\<forall>v \<in> set ps. 0 \<le> v \<and> v \<le> q"
    proof
      fix v assume "v \<in> set ps"
      with ps(3) obtain c where c: "c \<le> length entries"
        "accountProgress c (collMapSize ops) (Some r) = Some v" by blast
      from c(1) len have "c \<le> collMapSize ops" by simp
      from accountProgress_bounds [OF this weight c(2)] accountProgress_mono [OF c(1) u c(2) q]
      show "0 \<le> v \<and> v \<le> q" by simp
    qed
    with ps(1,2,4) False q q100 show ?thesis by (intro exI [of _ ps] exI [of _ q]) simp
  qed
qed

text \<open>
  The loop over the credential set: one non-decreasing run of values for each account,
  the values of the last account being at most the progress that the loop returns.
\<close>

lemma usersLoop_segments:
  assumes filtered:
    "\<forall>au w es w'. checkNewData ops au w = Inr (es, w') \<longrightarrow> length es \<le> collMapSize ops"
  shows "\<forall>au \<in> set (accountsOf items). apiKey au \<noteq> None \<and> apiSecret au \<noteq> None \<Longrightarrow>
     count + length items \<le> authSize \<Longrightarrow> 0 \<le> q0 \<Longrightarrow> q0 \<le> 100 \<Longrightarrow>
     usersLoop ops handler authSize items count (Some q0) st = Inr (p, st') \<Longrightarrow>
     \<exists>segs q. length segs = length (accountsOf items) \<and>
        published st' = published st @ map Percent (concat segs) \<and>
        (\<forall>s \<in> set segs. sorted s \<and> (\<forall>v \<in> set s. 0 \<le> v \<and> v \<le> 100)) \<and>
        p = Some q \<and> 0 \<le> q \<and> q \<le> 100 \<and>
        (if segs = [] then q = q0 else \<forall>v \<in> set (last segs). v \<le> q)"
proof (induction items arbitrary: count q0 st)
  case Nil
  then show ?case by (intro exI [of _ "[]"]) simp
next
  case (Cons item items)
  show ?case
  proof (cases item)
    case NotAnObject
    with Cons.prems have "\<forall>au \<in> set (accountsOf items). apiKey au \<noteq> None \<and> apiSecret au \<noteq> None"
      "count + length items \<le> authSize"
      "usersLoop ops handler authSize items count (Some q0) st = Inr (p, st')"
      by simp_all
    from Cons.IH [OF this(1,2) Cons.prems(3,4) this(3)] NotAnObject show ?thesis by simp
  next
    case (AuthObject au)
    with Cons.prems(1) have keys: "apiKey au \<noteq> None" "apiSecret au \<noteq> None"
      and rest: "\<forall>au \<in> set (accountsOf items). apiKey au \<noteq> None \<and> apiSecret au \<noteq> None"
      by simp_all
    from Cons.prems(2) have cnt: "Suc count \<le> authSize" "authSize \<noteq> 0"
      "Suc count + length items \<le> authSize" by simp_all
    from jsDivide_unit [OF cnt(1,2)] obtain r where
      r: "jsDivide (real (Suc count)) (real authSize) = Some r" "0 \<le> r" "r \<le> 1" by blast
    from Cons.prems(5) AuthObject r(1) obtain p1 st1 where
      one: "insertNewDataToDb ops handler au (Some r) st = Inr (p1, st1)" and
      more_runs: "usersLoop ops handler authSize items (Suc count) p1 st1 = Inr (p, st')"
      by (auto simp: Let_def split: sum.splits)
    from filtered have f: "\<forall>w es w'. checkNewData ops au w = Inr (es, w') \<longrightarrow> length es \<le> collMapSize ops"
      by blast
    from insertNewDataToDb_pass [OF keys r(2,3) f one] obtain ps q1 where
      q1: "p1 = Some q1" "0 \<le> q1" "q1 \<le> 100"
        "published st1 = published st @ map Percent ps" "sorted ps"
        "\<forall>v \<in> set ps. 0 \<le> v \<and> v \<le> q1"
      by blast
    from more_runs q1(1)
    have "usersLoop ops handler authSize items (Suc count) (Some q1) st1 = Inr (p, st')" by simp
    from Cons.IH [OF rest cnt(3) q1(2,3) this] obtain segs q where
      segs: "length segs = length (accountsOf items)"
        "published st' = published st1 @ map Percent (concat segs)"
        "\<forall>s \<in> set segs. sorted s \<and> (\<forall>v \<in> set s. 0 \<le> v \<and> v \<le> 100)"
        "p = Some q" "0 \<le> q" "q \<le> 100"
        "if segs = [] then q = q1 else \<forall>v \<in> set (last segs). v \<le> q"
      by blast
    have "length (ps # segs) = length (accountsOf (item # items))"
      using segs(1) AuthObject by simp
    moreover have "published st' = published st @ map Percent (concat (ps # segs))"
      using segs(2) q1(4) by simp
    moreover have "\<forall>v \<in> set ps. 0 \<le> v \<and> v \<le> 100" using q1(3,6) by fastforce
    with segs(3) q1(5)
    have "\<forall>s \<in> set (ps # segs). sorted s \<and> (\<forall>v \<in> set s. 0 \<le> v \<and> v \<le> 100)" by simp
    moreover have "\<forall>v \<in> set (last (ps # segs)). v \<le> q"
      using segs(7) q1(6) by (cases "segs = []") simp_all
    ultimately show ?thesis using segs(4,5,6) by (intro exI [of _ "ps # segs"] exI [of _ q]) simp
  qed
qed

text \<open>
  Claim C3, as the code has it. Take a run of \<open>insertNewDataToDbMultiUser\<close> that
  returns, over a credential set that is not empty and in which every account has
  string keys, when the filtered map that \<open>checkNewData\<close> returns never has more entries
  than \<open>this._methodCollMap\<close>. Every value passed to \<open>setProgress\<close> is a number, and
  the sequence of these values is a concatenation of non-decreasing runs: one run for
  each account but the last, followed by a final run that holds the values of the last
  account, those of the public pass and the closing 100. So the final value is exactly
  100, the values of the last account, of the public pass and the closing 100 never
  decrease, and with one account the whole sequence is non-decreasing. No value is below
  0 or above 100. From one account to the next the values may decrease.
\<close>

theorem C3_progress:
  assumes run: "insertNewDataToDbMultiUser ops handler hooks (AuthMap items) st = Inr st'"
    and nonempty: "items \<noteq> []"
    and keys: "\<forall>au \<in> set (accountsOf items). apiKey au \<noteq> None \<and> apiSecret au \<noteq> None"
    and filtered:
      "\<forall>au w es w'. checkNewData ops au w = Inr (es, w') \<longrightarrow> length es \<le> collMapSize ops"
  shows "\<exists>segs final.
           published st' = published st @ map Percent (concat segs @ final) \<and>
           length segs = length (accountsOf items) - 1 \<and>
           (\<forall>s \<in> set segs. sorted s) \<and>
           sorted final \<and> final \<noteq> [] \<and> last final = 100 \<and>
           (\<forall>v \<in> set (concat segs @ final). 0 \<le> v \<and> v \<le> 100)"
proof -
  from nonempty obtain item rest where items: "items = item # rest" by (cases items) auto
  from run obtain p st1 where
    users: "usersLoop ops handler (length items) items 0 (Some 0) st = Inr (p, st1)"
    unfolding items by (auto simp: insertNewDataToDbMultiUser_def split: sum.splits)
  from usersLoop_segments [OF filtered keys _ _ _ users] obtain segs q where
    segs: "length segs = length (accountsOf items)"
      "published st1 = published st @ map Percent (concat segs)"
      "\<forall>s \<in> set segs. sorted s \<and> (\<forall>v \<in> set s. 0 \<le> v \<and> v \<le> 100)"
      "p = Some q" "0 \<le> q" "q \<le> 100"
      "if segs = [] then q = 0 else \<forall>v \<in> set (last segs). v \<le> q"
    by auto
  from run users obtain st2 where
    pub: "insertNewPublicDataToDb ops handler (Some q) st1 = Inr st2" and
    fin: "published st' = published st2 @ [Percent 100]"
    unfolding items segs(4)
    by (auto simp: insertNewDataToDbMultiUser_def setProgress_def Let_def
             split: sum.splits prod.splits option.splits)
  from pub obtain entries w' where
    loop: "publicLoop ops handler (Some q) (length entries) entries 0 (st1\<lparr>world := w'\<rparr>) = Inr st2"
    by (auto simp: insertNewPublicDataToDb_def split: sum.splits)
  have pv: "\<forall>v. Some q = Some v \<longrightarrow> 0 \<le> v \<and> v \<le> 100" using segs(5,6) by simp
  from publicLoop_sorted [OF pv loop] obtain pp where
    pp: "published st2 = published st1 @ map Percent pp" "sorted pp"
      "\<forall>v \<in> set pp. v < 100 \<and> (\<exists>c > 0. publicProgress c (length entries) (Some q) = Some v)"
    by auto
  have ge: "\<forall>v \<in> set pp. q \<le> v"
    using pp(3) publicProgress_ge_prev [OF segs(5,6)] by blast
  have tail_sorted: "sorted (pp @ [100])"
    using pp(2,3) by (auto simp: sorted_append)
  have all: "published st' = published st @ map Percent (concat segs @ pp @ [100])"
    using fin pp(1) segs(2) by simp
  have range: "\<forall>v \<in> set (concat segs @ pp @ [100]). 0 \<le> v \<and> v \<le> 100"
    using segs(3,5) pp(3) ge by fastforce
  show ?thesis
  proof (cases "segs = []")
    case True
    with all segs(1) tail_sorted range show ?thesis
      by (intro exI [of _ "[]"] exI [of _ "pp @ [100]"]) simp
  next
    case False
    then have split: "segs = butlast segs @ [last segs]" by simp
    let ?final = "last segs @ pp @ [100]"
    from False segs(7) have le: "\<forall>v \<in> set (last segs). v \<le> q" by simp
    from False segs(3) have "sorted (last segs)" by simp
    with tail_sorted le ge segs(6) have "sorted ?final"
      by (fastforce simp: sorted_append)
    moreover have cc: "concat segs = concat (butlast segs) @ last segs"
      by (subst split) simp
    with all have "published st' = published st @ map Percent (concat (butlast segs) @ ?final)"
      by simp
    moreover from range cc
    have "\<forall>v \<in> set (concat (butlast segs) @ ?final). 0 \<le> v \<and> v \<le> 100" by simp
    moreover have "length (butlast segs) = length (accountsOf items) - 1"
      using segs(1) by simp
    moreover have "\<forall>s \<in> set (butlast segs). sorted s"
      using segs(3) by (auto dest: in_set_butlastD)
    ultimately show ?thesis
      by (intro exI [of _ "butlast segs"] exI [of _ ?final]) simp
  qed
qed

theorem C3_progress_witness:
  "insertNewDataToDbMultiUser busyOperations None []
     (AuthMap [AuthObject keyedAuth, AuthObject keyedAuth]) idleState
   = Inr \<lparr>published = [Percent 13, Percent 25, Percent 38, Percent 50,
                        Percent 25, Percent 50, Percent 75, Percent 100],
          world = 10\<rparr> \<and>
   (\<exists>segs final.
      [Percent 13, Percent 25, Percent 38, Percent 50,
       Percent 25, Percent 50, Percent 75, Percent 100] = map Percent (concat segs @ final) \<and>
      length segs = 1 \<and> (\<forall>s \<in> set segs. sorted s) \<and>
      sorted final \<and> final \<noteq> [] \<and> last final = 100 \<and>
      (\<forall>v \<in> set (concat segs @ final). 0 \<le> v \<and> v \<le> 100)) \<and>
   insertNewDataToDbMultiUser busyOperations None []
     (AuthMap [AuthObject keyedAuth, NotAnObject]) idleState
   = Inr \<lparr>published = [Percent 13, Percent 25, Percent 38, Percent 50, Percent 75, Percent 100],
          world = 6\<rparr> \<and>
   (\<exists>final.
      [Percent 13, Percent 25, Percent 38, Percent 50, Percent 75, Percent 100]
        = map Percent final \<and>
      sorted final \<and> final \<noteq> [] \<and> last final = 100 \<and>
      (\<forall>v \<in> set final. 0 \<le> v \<and> v \<le> 100))"
proof -
  have r1: "insertNewDataToDbMultiUser busyOperations None []
              (AuthMap [AuthObject keyedAuth, AuthObject keyedAuth]) idleState
            = Inr \<lparr>published = [Percent 13, Percent 25, Percent 38, Percent 50,
                                 Percent 25, Percent 50, Percent 75, Percent 100],
                   world = 10\<rparr>"
    by (simp add: run_eval)
  have r2: "insertNewDataToDbMultiUser busyOperations None []
              (AuthMap [AuthObject keyedAuth, NotAnObject]) idleState
            = Inr \<lparr>published = [Percent 13, Percent 25, Percent 38, Percent 50, Percent 75,
                                 Percent 100],
                   world = 6\<rparr>"
    by (simp add: run_eval)
  have k1: "\<forall>au \<in> set (accountsOf [AuthObject keyedAuth, AuthObject keyedAuth]).
              apiKey au \<noteq> None \<and> apiSecret au \<noteq> None"
    and k2: "\<forall>au \<in> set (accountsOf [AuthObject keyedAuth, NotAnObject]).
              apiKey au \<noteq> None \<and> apiSecret au \<noteq> None"
    by (simp_all add: keyedAuth_def)
  have f: "\<forall>au w es w'. checkNewData busyOperations au w = Inr (es, w')
             \<longrightarrow> length es \<le> collMapSize busyOperations"
    by (auto simp: busyOperations_def quietOperations_def fourEntries_def)
  from C3_progress [OF r1 _ k1 f] C3_progress [OF r2 _ k2 f] r1 r2
  show ?thesis by (simp add: idleState_def)
qed

text \<open>
  The sequence of a full run is not non-decreasing: with two accounts and four
  collections each, the first account, weighted by 1/2, ends at 50 and the second
  starts again at 25.
\<close>

theorem C3_progress_counterexample:
  "insertNewDataToDbMultiUser quietOperations None []
     (AuthMap [AuthObject keyedAuth, AuthObject keyedAuth]) idleState
   = Inr \<lparr>published = [Percent 13, Percent 25, Percent 38, Percent 50,
                        Percent 25, Percent 50, Percent 75, Percent 100],
          world = 8\<rparr> \<and>
   \<not> sorted [13, 25, 38, 50, 25, 50, 75, 100 :: int]"
  by (simp add: run_eval)

text \<open>
  Claim C8. When the credential set is missing, is not a \<open>Map\<close> or is empty, and the
  progress handler (if one is registered) does not throw, \<open>insertNewDataToDbMultiUser\<close>
  passes \<open>'ERR_AUTH_UNAUTHORIZED'\<close> to \<open>setProgress\<close> and returns; nothing else is
  published and the world (gateway and storage) is as it was.
\<close>

theorem C8_unauthorized:
  assumes "authStore = AuthMissing \<or> authStore = AuthNotAMap \<or> authStore = AuthMap []"
    and "case handler of None \<Rightarrow> True | Some h \<Rightarrow> h ERR_AUTH_UNAUTHORIZED = None"
  shows "insertNewDataToDbMultiUser ops handler hooks authStore st =
           Inr (st\<lparr>published := published st @ [ERR_AUTH_UNAUTHORIZED]\<rparr>)"
  using assms
  by (auto simp: insertNewDataToDbMultiUser_def setProgress_def Let_def split: option.splits)

theorem C8_unauthorized_witness:
  "insertNewDataToDbMultiUser quietOperations None [] AuthMissing idleState =
     Inr \<lparr>published = [ERR_AUTH_UNAUTHORIZED], world = 0\<rparr> \<and>
   insertNewDataToDbMultiUser quietOperations None [] (AuthMap []) idleState =
     Inr \<lparr>published = [ERR_AUTH_UNAUTHORIZED], world = 0\<rparr>"
proof -
  have h: "case (None :: (progress \<Rightarrow> string option) option) of None \<Rightarrow> True
           | Some h \<Rightarrow> h ERR_AUTH_UNAUTHORIZED = None" by simp
  have a: "AuthMissing = AuthMissing \<or> AuthMissing = AuthNotAMap \<or> AuthMissing = AuthMap []"
    by simp
  have b: "AuthMap [] = AuthMissing \<or> AuthMap [] = AuthNotAMap \<or> AuthMap [] = AuthMap []"
    by simp
  from C8_unauthorized [OF a h, of quietOperations "[]" idleState]
       C8_unauthorized [OF b h, of quietOperations "[]" idleState]
  show ?thesis by (simp add: idleState_def)
qed
section \<open>Properties of the responder\<close>

text \<open>
  A thrown instance of \<open>Error\<close> is answered once, with an error response, when the
  callback does not throw and the error is not one with a status and an HTML response
  without a title.
\<close>

lemma classified_flags:
  "instanceOfError (getErrorWithMetadataForNonBaseError cl nb args (Object e)) = instanceOfError e"
  "hasStatus (getErrorWithMetadataForNonBaseError cl nb args (Object e)) = hasStatus e"
  "responseIsHtml (getErrorWithMetadataForNonBaseError cl nb args (Object e)) = responseIsHtml e"
  "responseHasTitle (getErrorWithMetadataForNonBaseError cl nb args (Object e)) = responseHasTitle e"
  by (simp_all add: getErrorWithMetadataForNonBaseError_def Let_def)

lemma logError_object:
  assumes "\<not> (hasStatus e \<and> responseIsHtml e \<and> \<not> responseHasTitle e)"
  shows "\<exists>e'. logError cl nb args (Object e :: ('v, 'd) jsvalue) = Inr (Object e') \<and>
              instanceOfError e' = instanceOfError e \<and> hasStatus e' = hasStatus e \<and>
              responseIsHtml e' = responseIsHtml e \<and> responseHasTitle e' = responseHasTitle e"
  using assms
  by (simp add: logError_def getErrorMetadata_def getBfxApiErrorMetadataThrows_def Let_def
        classified_flags)

lemma makeJsonRpcResponse_error:
  assumes "instanceOfError e" "\<not> (hasStatus e \<and> responseIsHtml e \<and> \<not> responseHasTitle e)"
  shows "\<exists>code message data.
           makeJsonRpcResponse cl nb args (Object e :: ('v, 'd) jsvalue) =
             Inr (ErrorEnvelope JSON_RPC_VERSION code message data
                    (case args of None \<Rightarrow> None | Some a \<Rightarrow> argsId a))"
  using assms
  by (simp add: makeJsonRpcResponse_def getErrorMetadata_def getBfxApiErrorMetadataThrows_def
        Let_def)

lemma thrown_error_is_error:
  assumes cb: "\<forall>response. cb response = None"
    and e: "instanceOfError e" "\<not> (hasStatus e \<and> responseIsHtml e \<and> \<not> responseHasTitle e)"
  shows "\<exists>code message data.
           responder cl nb (Throws (Object e)) args cb =
           \<lparr>cbCalls = [ErrorEnvelope JSON_RPC_VERSION code message data
                         (case args of None \<Rightarrow> None | Some a \<Rightarrow> argsId a)],
            thrown = None, unhandled = None\<rparr>"
proof -
  from logError_object [OF e(2), of cl nb args] obtain e' where
    e': "logError cl nb args (Object e :: ('a, 'b) jsvalue) = Inr (Object e')"
    "instanceOfError e' = instanceOfError e" "hasStatus e' = hasStatus e"
    "responseIsHtml e' = responseIsHtml e" "responseHasTitle e' = responseHasTitle e"
    by blast
  from e e'(2-5) have "instanceOfError e'"
    "\<not> (hasStatus e' \<and> responseIsHtml e' \<and> \<not> responseHasTitle e')" by simp_all
  from makeJsonRpcResponse_error [OF this, of cl nb args] obtain code message data where
    "makeJsonRpcResponse cl nb args (Object e' :: ('a, 'b) jsvalue) =
       Inr (ErrorEnvelope JSON_RPC_VERSION code message data
              (case args of None \<Rightarrow> None | Some a \<Rightarrow> argsId a))" by blast
  with e'(1) cb show ?thesis
    by (simp add: responder_def catchError_def callBack_def)
qed

text \<open>A thrown value that is not an object is answered with a result response.\<close>

lemma thrown_primitive_is_result:
  assumes "\<forall>response. cb response = None"
  shows "responder cl newBaseError (Throws (Primitive v)) args cb =
           \<lparr>cbCalls = [ResultEnvelope JSON_RPC_VERSION (Primitive v)
                         (case args of None \<Rightarrow> None | Some a \<Rightarrow> argsId a)],
            thrown = None, unhandled = None\<rparr>"
  using assms
  by (simp add: responder_def catchError_def logError_def getErrorMetadata_def
        getBfxApiErrorMetadataThrows_def callBack_def makeJsonRpcResponse_def Let_def)

text \<open>
  Claim C10 does not hold of the code. The callback is called once with \<open>null\<close> and a
  response, but a handler that throws the string \<open>'ERR_X'\<close>, or returns a promise
  rejected with it, gets the result response \<open>{ jsonrpc: '2.0', result: 'ERR_X', id: 7 }\<close>
  where the claim has an error response: \<open>_makeJsonRpcResponse\<close> builds the error
  response only for an instance of \<open>Error\<close>.
\<close>

theorem C10_thrown_string_answered_as_result:
  "responder plainClassifiers baseError (Throws (Primitive ''ERR_X'')) request7 quietCallback
     = \<lparr>cbCalls = [ResultEnvelope ''2.0'' (Primitive ''ERR_X'') (Some 7)],
        thrown = None, unhandled = None\<rparr> \<and>
   responder plainClassifiers baseError (Rejects (Primitive ''ERR_X'')) request7 quietCallback
     = \<lparr>cbCalls = [ResultEnvelope ''2.0'' (Primitive ''ERR_X'') (Some 7)],
        thrown = None, unhandled = None\<rparr>"
  by code_simp
end
